theory Spec2Isabelle
  imports Complex_Main
begin

section \<open>JavaScript strings and numbers\<close>

text \<open>
  A JavaScript string is a sequence of UTF-16 code units; \<open>length\<close>, indexing,
  \<open>slice\<close>, \<open>at\<close>, \<open>startsWith\<close> and \<open>endsWith\<close> all count code units, so a
  string is modelled as the list of its code units (natural numbers).  Iteration with
  \<open>for (const ch of s)\<close> and the spread \<open>[...s]\<close> walk code points: a high
  surrogate followed by a low surrogate is one element (\<open>codePoints\<close>).
  Numbers (milliseconds, budgets) are IEEE doubles in the source; they are modelled as
  exact reals, so rounding, NaN and the infinities are outside the model.
\<close>

type_synonym jchar = nat
type_synonym jstring = "jchar list"

text \<open>White space and line terminators, as \<open>String.prototype.trim\<close> and the regular
  expression class \<open>\s\<close> read them.\<close>

definition is_ws :: "jchar \<Rightarrow> bool" where
  "is_ws c \<longleftrightarrow>
     c = 0x09 \<or> c = 0x0A \<or> c = 0x0B \<or> c = 0x0C \<or> c = 0x0D \<or> c = 0x20 \<or> c = 0xA0 \<or>
     c = 0x1680 \<or> (0x2000 \<le> c \<and> c \<le> 0x200A) \<or> c = 0x2028 \<or> c = 0x2029 \<or>
     c = 0x202F \<or> c = 0x205F \<or> c = 0x3000 \<or> c = 0xFEFF"

definition trimStart :: "jstring \<Rightarrow> jstring" where
  "trimStart s = dropWhile is_ws s"

definition trimEnd :: "jstring \<Rightarrow> jstring" where
  "trimEnd s = rev (dropWhile is_ws (rev s))"

definition trim :: "jstring \<Rightarrow> jstring" where
  "trim s = trimEnd (trimStart s)"

text \<open>\<open>s.startsWith(" ")\<close> and \<open>s.endsWith(" ")\<close>.\<close>

definition startsWithSpace :: "jstring \<Rightarrow> bool" where
  "startsWithSpace s = (case s of [] \<Rightarrow> False | c # _ \<Rightarrow> c = 0x20)"

definition endsWithSpace :: "jstring \<Rightarrow> bool" where
  "endsWithSpace s = (s \<noteq> [] \<and> last s = 0x20)"

text \<open>\<open>s.slice(-1)\<close> and \<open>s.at(-1) ?? ""\<close>: the last code unit as a string, the empty
  string for the empty string.\<close>

definition lastChar :: "jstring \<Rightarrow> jstring" where
  "lastChar s = (if s = [] then [] else [last s])"

text \<open>\<open>slice(start, end)\<close> of strings and arrays, for integer arguments: a negative
  argument counts from the end, and both are clamped to the length.\<close>

definition sliceIndex :: "nat \<Rightarrow> int \<Rightarrow> nat" where
  "sliceIndex n i = (if i < 0 then nat (max (int n + i) 0) else min (nat i) n)"

definition slice :: "int \<Rightarrow> int \<Rightarrow> 'a list \<Rightarrow> 'a list" where
  "slice from to xs =
     (let a = sliceIndex (length xs) from; b = sliceIndex (length xs) to
      in take (b - a) (drop a xs))"

text \<open>\<open>s.replace(/\s+/g, "")\<close>: the string without its white space.\<close>

definition removeWs :: "jstring \<Rightarrow> jstring" where
  "removeWs s = filter (\<lambda>c. \<not> is_ws c) s"

text \<open>The code points of a string, each as the string of its one or two code units.\<close>

fun codePoints :: "jstring \<Rightarrow> jstring list" where
  "codePoints [] = []"
| "codePoints [c] = [[c]]"
| "codePoints (c # d # cs) =
     (if 0xD800 \<le> c \<and> c \<le> 0xDBFF \<and> 0xDC00 \<le> d \<and> d \<le> 0xDFFF
      then [c, d] # codePoints cs
      else [c] # codePoints (d # cs))"

definition codePointAt0 :: "jstring \<Rightarrow> nat" where
  "codePointAt0 ch =
     (case ch of
        [] \<Rightarrow> 0
      | [c] \<Rightarrow> c
      | c # d # _ \<Rightarrow>
          (if 0xD800 \<le> c \<and> c \<le> 0xDBFF \<and> 0xDC00 \<le> d \<and> d \<le> 0xDFFF
           then 0x10000 + (c - 0xD800) * 0x400 + (d - 0xDC00) else c))"

text \<open>The value of \<open>a ?? b\<close> when \<open>a\<close> may be undefined.\<close>

definition orElse :: "'a option \<Rightarrow> 'a \<Rightarrow> 'a" where
  "orElse a b = (case a of Some x \<Rightarrow> x | None \<Rightarrow> b)"

section \<open>Punctuation tables and script detection\<close>

definition SENTENCE_ENDERS :: "jstring set" where
  "SENTENCE_ENDERS = {[0x3002], [0xFF61], [0x2E], [0xFF0E], [0xFF01], [0x21], [0xFF1F], [0x3F]}"

definition MINOR_BREAKERS :: "jstring set" where
  "MINOR_BREAKERS = {[0x2C], [0xFF0C], [0x3B], [0xFF1B], [0x3A], [0xFF1A], [0x3001],
     [0x2014], [0x2013], [0x2D], [0xFF65]}"

definition PUNCT :: "jstring set" where
  "PUNCT = {[0x2E], [0x2C], [0x21], [0x3F], [0x3B], [0x3A], [0x2013], [0x2014], [0x2D],
     [0x2026], [0xFF0C], [0xFF1B], [0xFF1A], [0xFF61], [0xFF0E], [0xFF65]}"

definition isCjkCode :: "nat \<Rightarrow> bool" where
  "isCjkCode code \<longleftrightarrow>
     code \<noteq> 0 \<and>
     ((0x3040 \<le> code \<and> code \<le> 0x30FF) \<or> (0x3400 \<le> code \<and> code \<le> 0x4DBF) \<or>
      (0x4E00 \<le> code \<and> code \<le> 0x9FFF) \<or> (0xF900 \<le> code \<and> code \<le> 0xFAFF))"

definition containsCjk :: "jstring \<Rightarrow> bool" where
  "containsCjk s = list_ex (\<lambda>ch. isCjkCode (codePointAt0 ch)) (codePoints s)"

definition isSentenceBreak :: "jstring \<Rightarrow> bool" where
  "isSentenceBreak s = (if s \<noteq> [] then s \<in> SENTENCE_ENDERS else False)"

definition endsWithSentenceBreak :: "jstring \<Rightarrow> bool" where
  "endsWithSentenceBreak s =
     (if s = [] then False
      else let stripped = trim s
           in if length stripped = 0 then False else [last stripped] \<in> SENTENCE_ENDERS)"

section \<open>Tokens and words\<close>

text \<open>
  A \<open>Token\<close> of the transcript.  Every use of \<open>token.text\<close> in the code is
  \<open>token.text ?? ""\<close>, so a missing text is the empty string.  \<open>tk_prefix_space\<close> is the
  truth value of the property \<open>_prefix_space\<close>, which \<open>tokensToWords\<close> writes on the
  token object itself (a transcript may carry the property already, since the type is open).
\<close>

datatype speaker = Undefined | Null | Name jstring

record token =
  tk_text :: jstring
  tk_start_ms :: "real option"
  tk_end_ms :: "real option"
  tk_speaker :: speaker
  tk_prefix_space :: bool

text \<open>A \<open>WordToken\<close>: the merged text, its extent, the member tokens.\<close>

record word =
  w_text :: jstring
  w_start_ms :: "real option"
  w_end_ms :: "real option"
  w_speaker :: speaker
  w_inner :: "token list"
  w_prefix_space :: bool

section \<open>The word assembler: tokensToWords\<close>

record tw_state =
  tw_words :: "word list"
  tw_currentTokens :: "token list"
  tw_currentText :: "jstring list"
  tw_currentStart :: "real option"
  tw_currentEnd :: "real option"

definition tw_init :: tw_state where
  "tw_init = \<lparr>tw_words = [], tw_currentTokens = [], tw_currentText = [],
     tw_currentStart = None, tw_currentEnd = None\<rparr>"

definition flush :: "tw_state \<Rightarrow> tw_state" where
  "flush st =
     (if length (tw_currentTokens st) = 0 then st
      else
        let prefixSpace = tk_prefix_space (hd (tw_currentTokens st));
            txt = (if prefixSpace then [0x20] else []) @ concat (tw_currentText st)
        in \<lparr>tw_words = tw_words st @
               [\<lparr>w_text = txt,
                 w_start_ms = Some (orElse (tw_currentStart st) 0),
                 w_end_ms = Some (orElse (tw_currentEnd st) (orElse (tw_currentStart st) 0)),
                 w_speaker = Undefined,
                 w_inner = tw_currentTokens st,
                 w_prefix_space = prefixSpace\<rparr>],
             tw_currentTokens = [], tw_currentText = [],
             tw_currentStart = None, tw_currentEnd = None\<rparr>)"

definition addToCurrent :: "token \<Rightarrow> jstring \<Rightarrow> bool \<Rightarrow> tw_state \<Rightarrow> tw_state" where
  "addToCurrent tok textPart prefixSpace st =
     \<lparr>tw_words = tw_words st,
      tw_currentTokens = tw_currentTokens st @
        [if prefixSpace then tok\<lparr>tk_prefix_space := True\<rparr> else tok],
      tw_currentText = tw_currentText st @ [textPart],
      tw_currentStart =
        (case tk_start_ms tok of
           None \<Rightarrow> tw_currentStart st
         | Some tokenStart \<Rightarrow>
             (case tw_currentStart st of
                None \<Rightarrow> Some tokenStart
              | Some cs \<Rightarrow> Some (min cs tokenStart))),
      tw_currentEnd =
        (case tk_end_ms tok of
           None \<Rightarrow> tw_currentEnd st
         | Some tokenEnd \<Rightarrow>
             (case tw_currentEnd st of
                None \<Rightarrow> Some tokenEnd
              | Some ce \<Rightarrow> Some (max ce tokenEnd)))\<rparr>"

text \<open>One iteration of the loop over the tokens.\<close>

definition tw_step :: "tw_state \<Rightarrow> token \<Rightarrow> tw_state" where
  "tw_step st tok =
     (let rawText = tk_text tok in
      if rawText = [] then st
      else
        let startsSpace = is_ws (hd rawText);
            clean = trimStart rawText;
            isPunct = (length clean > 0 \<and> list_all (\<lambda>ch. ch \<in> PUNCT) (codePoints clean));
            st1 =
              (if startsSpace then addToCurrent tok clean True (flush st)
               else if length (tw_currentTokens st) > 0 then
                 (if isPunct then addToCurrent tok clean False st
                  else if containsCjk clean \<and> containsCjk (concat (tw_currentText st))
                  then addToCurrent tok clean False (flush st)
                  else addToCurrent tok clean False st)
               else addToCurrent tok clean False st)
        in if length clean > 0 \<and>
              (lastChar clean \<in> SENTENCE_ENDERS \<or> lastChar clean \<in> MINOR_BREAKERS \<or>
               (containsCjk clean \<and> length clean = 1))
           then flush st1 else st1)"

definition tokensToWords :: "token list \<Rightarrow> word list" where
  "tokensToWords tokens =
     (let ws = tw_words (flush (foldl tw_step tw_init tokens))
      in case ws of
           [] \<Rightarrow> []
         | w0 # rest \<Rightarrow>
             (if startsWithSpace (w_text w0)
              then w0\<lparr>w_text := trimStart (w_text w0)\<rparr> # rest
              else ws))"


section \<open>Configuration and segments\<close>

record config =
  gap_ms :: real
  min_dur_ms :: real
  max_dur_ms :: real
  max_cps :: real
  max_cpl :: int
  max_lines :: int
  line_split_delimiters :: "jstring list"
  segment_on_sentence :: bool
  split_on_speaker :: bool
  ellipses :: bool

text \<open>The configuration \<open>new SubtitleConfig()\<close> builds from no options.\<close>

definition defaultConfig :: config where
  "defaultConfig = \<lparr>gap_ms = 1200, min_dur_ms = 1000, max_dur_ms = 7000, max_cps = 17,
     max_cpl = 42, max_lines = 2, line_split_delimiters = [], segment_on_sentence = False,
     split_on_speaker = False, ellipses = False\<rparr>"

text \<open>
  A \<open>SubtitleSegment\<close>.  \<open>tokens\<close> and \<open>text\<close> are optional; \<open>sentence_break\<close>,
  \<open>prefix_ellipsis\<close> and \<open>suffix_ellipsis\<close> are read for their truth value only, so a
  missing property is \<open>False\<close>.
\<close>

record segment =
  seg_start :: real
  seg_end :: real
  seg_speaker :: speaker
  seg_tokens :: "word list option"
  seg_text :: "jstring option"
  seg_sentence_break :: bool
  seg_prefix_ellipsis :: bool
  seg_suffix_ellipsis :: bool

definition concatText :: "word list \<Rightarrow> jstring" where
  "concatText tokens = trim (concat (map w_text tokens))"

definition segmentText :: "segment \<Rightarrow> jstring" where
  "segmentText seg =
     (case seg_tokens seg of
        Some tokens \<Rightarrow> concatText tokens
      | None \<Rightarrow> orElse (seg_text seg) [])"

definition charsForCps :: "jstring \<Rightarrow> nat" where
  "charsForCps s = length (removeWs s)"

text \<open>\<open>firstNonEmpty\<close>: the first value that is neither undefined, null nor the empty
  string.\<close>

fun firstNonEmpty :: "speaker list \<Rightarrow> speaker" where
  "firstNonEmpty [] = Undefined"
| "firstNonEmpty (Name s # vs) = (if s \<noteq> [] then Name s else firstNonEmpty vs)"
| "firstNonEmpty (_ # vs) = firstNonEmpty vs"

text \<open>\<open>v ?? null\<close> on a speaker.\<close>

definition orNull :: "speaker \<Rightarrow> speaker" where
  "orNull v = (if v = Undefined then Null else v)"

text \<open>\<open>Math.max(...xs)\<close> of a non-empty list (the caller checks the length).\<close>

fun mathMax :: "real list \<Rightarrow> real" where
  "mathMax (x # xs) = fold max xs x"

section \<open>The segmenter: buildSegments\<close>

definition safeBoundary :: "jstring \<Rightarrow> jstring \<Rightarrow> bool" where
  "safeBoundary prevText nextText =
     (if nextText = [] then True
      else if startsWithSpace nextText then True
      else lastChar prevText = [0x20] \<or> lastChar prevText \<in> SENTENCE_ENDERS \<or>
           lastChar prevText \<in> MINOR_BREAKERS)"

record bs_state =
  bs_segments :: "segment list"
  bs_current :: "word list"
  bs_currentStart :: "real option"
  bs_lastTokenEnd :: "real option"
  bs_currentSpeaker :: speaker

definition bs_init :: bs_state where
  "bs_init = \<lparr>bs_segments = [], bs_current = [], bs_currentStart = None,
     bs_lastTokenEnd = None, bs_currentSpeaker = Undefined\<rparr>"

definition closeSegment :: "bool \<Rightarrow> bs_state \<Rightarrow> bs_state" where
  "closeSegment sentenceBreak st =
     (if length (bs_current st) = 0 then st
      else if concatText (bs_current st) = [] then
        \<lparr>bs_segments = bs_segments st, bs_current = [], bs_currentStart = None,
         bs_lastTokenEnd = None, bs_currentSpeaker = Undefined\<rparr>
      else
        let start = orElse (bs_currentStart st) 0;
            endCandidates =
              map (\<lambda>t. orElse (w_end_ms t) (orElse (w_start_ms t) start)) (bs_current st);
            end' = (if length endCandidates > 0 then mathMax endCandidates else start);
            speaker = firstNonEmpty (map w_speaker (bs_current st))
        in \<lparr>bs_segments = bs_segments st @
               [\<lparr>seg_start = start, seg_end = end', seg_speaker = orNull speaker,
                 seg_tokens = Some (bs_current st), seg_text = None,
                 seg_sentence_break = sentenceBreak,
                 seg_prefix_ellipsis = False, seg_suffix_ellipsis = False\<rparr>],
             bs_current = [], bs_currentStart = None,
             bs_lastTokenEnd = None, bs_currentSpeaker = Undefined\<rparr>)"

text \<open>The loop body, in the order of the source: the speaker check, the gap check, the
  append with its bookkeeping, the sentence check.\<close>

definition bs_speakerCheck :: "bool \<Rightarrow> word \<Rightarrow> bs_state \<Rightarrow> bs_state" where
  "bs_speakerCheck splitOnSpeaker w st =
     (if splitOnSpeaker \<and> length (bs_current st) > 0 \<and> w_speaker w \<noteq> Undefined \<and>
         bs_currentSpeaker st \<noteq> Undefined \<and> w_speaker w \<noteq> bs_currentSpeaker st
      then closeSegment False st else st)"

definition bs_gapCheck :: "real \<Rightarrow> word \<Rightarrow> bs_state \<Rightarrow> bs_state" where
  "bs_gapCheck gapThreshold w st =
     (if length (bs_current st) > 0 then
        (case (bs_lastTokenEnd st, w_start_ms w) of
           (Some lastTokenEnd, Some start) \<Rightarrow>
             (let gap = start - lastTokenEnd in
              if gapThreshold > 0 \<and> gap > gapThreshold then
                (let previousText = w_text (last (bs_current st)) in
                 if safeBoundary previousText (w_text w) then closeSegment False st else st)
              else st)
         | _ \<Rightarrow> st)
      else st)"

definition bs_append :: "word \<Rightarrow> bs_state \<Rightarrow> bs_state" where
  "bs_append w st =
     \<lparr>bs_segments = bs_segments st,
      bs_current = bs_current st @ [w],
      bs_currentStart =
        (if length (bs_current st) = 0 \<and> w_start_ms w \<noteq> None then w_start_ms w
         else bs_currentStart st),
      bs_lastTokenEnd = (if w_end_ms w \<noteq> None then w_end_ms w else bs_lastTokenEnd st),
      bs_currentSpeaker =
        (if bs_currentSpeaker st = Undefined \<and> w_speaker w \<noteq> Undefined then w_speaker w
         else bs_currentSpeaker st)\<rparr>"

definition bs_sentenceCheck :: "bool \<Rightarrow> word \<Rightarrow> bs_state \<Rightarrow> bs_state" where
  "bs_sentenceCheck segmentOnSentence w st =
     (let sentenceBreak =
            (if w_text w \<noteq> [] then
               (let trimmed = trim (w_text w) in
                if trimmed \<noteq> [] then
                  (if isSentenceBreak trimmed then True
                   else if segmentOnSentence \<and> endsWithSentenceBreak trimmed then True
                   else False)
                else False)
             else False)
      in if sentenceBreak then closeSegment True st else st)"

definition bs_step :: "real \<Rightarrow> bool \<Rightarrow> bool \<Rightarrow> bs_state \<Rightarrow> word \<Rightarrow> bs_state" where
  "bs_step gapThreshold splitOnSpeaker segmentOnSentence st w =
     bs_sentenceCheck segmentOnSentence w
       (bs_append w (bs_gapCheck gapThreshold w (bs_speakerCheck splitOnSpeaker w st)))"

definition buildSegments :: "word list \<Rightarrow> real \<Rightarrow> bool \<Rightarrow> bool \<Rightarrow> segment list" where
  "buildSegments tokens gapThreshold splitOnSpeaker segmentOnSentence =
     bs_segments (closeSegment False
       (foldl (bs_step gapThreshold splitOnSpeaker segmentOnSentence) bs_init tokens))"

section \<open>The readability enforcer\<close>

subsection \<open>Choosing where to split\<close>

definition isSafeAt :: "word list \<Rightarrow> nat \<Rightarrow> bool" where
  "isSafeAt tokens index =
     (if index \<le> 0 \<or> index \<ge> length tokens then True
      else
        let left = w_text (tokens ! (index - 1)); right = w_text (tokens ! index)
        in if startsWithSpace right then True
           else if endsWithSpace left then True
           else lastChar left \<in> SENTENCE_ENDERS \<or> lastChar left \<in> MINOR_BREAKERS)"

text \<open>The two probing loops: forward over \<open>index + 1, ..., length - 1\<close>, then backward
  over \<open>index - 1, ..., 1\<close>.\<close>

definition adjustToSafe :: "word list \<Rightarrow> nat \<Rightarrow> nat" where
  "adjustToSafe tokens index =
     (if isSafeAt tokens index then index
      else case find (isSafeAt tokens) [index + 1 ..< length tokens] of
             Some j \<Rightarrow> j
           | None \<Rightarrow>
               (case find (isSafeAt tokens) (rev [1 ..< index]) of
                  Some j \<Rightarrow> j
                | None \<Rightarrow> index))"

text \<open>The running totals \<open>cumulative\<close> of the text lengths.\<close>

fun cumulativeFrom :: "nat \<Rightarrow> word list \<Rightarrow> nat list" where
  "cumulativeFrom acc [] = []"
| "cumulativeFrom acc (t # ts) =
     (acc + length (w_text t)) # cumulativeFrom (acc + length (w_text t)) ts"

definition safeAfterList :: "word list \<Rightarrow> nat list" where
  "safeAfterList tokens =
     map (\<lambda>i. i + 1)
       (filter (\<lambda>i. safeBoundary (w_text (tokens ! i)) (w_text (tokens ! (i + 1))))
          [0 ..< length tokens - 1])"

definition endsSentence :: "word list \<Rightarrow> nat \<Rightarrow> bool" where
  "endsSentence tokens i =
     (let t = w_text (tokens ! (i - 1)) in t \<noteq> [] \<and> lastChar t \<in> SENTENCE_ENDERS)"

text \<open>The scan of \<open>safeAfter\<close> for the candidate whose running total is nearest to
  \<open>midChars\<close>; the first of equally near candidates wins.\<close>

definition bestSafeIndex :: "nat list \<Rightarrow> nat \<Rightarrow> nat list \<Rightarrow> nat" where
  "bestSafeIndex cumulative midChars safeAfter =
     fst (fold (\<lambda>candidate (bestIndex, bestDelta).
                  let delta = \<bar>int (cumulative ! (candidate - 1)) - int midChars\<bar>
                  in if delta < bestDelta then (candidate, delta) else (bestIndex, bestDelta))
            safeAfter
            (hd safeAfter, \<bar>int (cumulative ! (hd safeAfter - 1)) - int midChars\<bar>))"

definition findSplitIndex :: "word list \<Rightarrow> nat" where
  "findSplitIndex tokens =
     (let n = length tokens in
      if n \<le> 1 then 1
      else
        let totalChars = sum_list (map (\<lambda>t. length (w_text t)) tokens);
            midChars = totalChars div 2;
            cumulative = cumulativeFrom 0 tokens;
            safeAfter = safeAfterList tokens
        in if length safeAfter > 0 then
             adjustToSafe tokens (bestSafeIndex cumulative midChars safeAfter)
           else
             let mid = n div 2 in
             case find (endsSentence tokens) (rev [1 ..< mid + 1]) of
               Some i \<Rightarrow> adjustToSafe tokens i
             | None \<Rightarrow>
                 (case find (endsSentence tokens) [mid + 1 ..< n] of
                    Some i \<Rightarrow> adjustToSafe tokens i
                  | None \<Rightarrow> adjustToSafe tokens mid))"

subsection \<open>The split phase\<close>

definition segDuration :: "segment \<Rightarrow> real" where
  "segDuration seg = max 1 (seg_end seg - seg_start seg)"

definition segCps :: "segment \<Rightarrow> real" where
  "segCps seg = real (charsForCps (segmentText seg)) / (segDuration seg / 1000)"

definition overBudget :: "config \<Rightarrow> segment \<Rightarrow> bool" where
  "overBudget cfg seg \<longleftrightarrow>
     segDuration seg > max_dur_ms cfg \<or> segCps seg > max_cps cfg \<or>
     int (length (segmentText seg)) > max_cpl cfg * max_lines cfg"

definition needsSplit :: "config \<Rightarrow> segment \<Rightarrow> bool" where
  "needsSplit cfg seg \<longleftrightarrow> overBudget cfg seg \<and> length (orElse (seg_tokens seg) []) > 1"

definition splitLeft :: "config \<Rightarrow> segment \<Rightarrow> segment" where
  "splitLeft cfg current =
     (let tokens = orElse (seg_tokens current) [];
          leftTokens = take (findSplitIndex tokens) tokens
      in \<lparr>seg_start = orElse (w_start_ms (hd leftTokens)) (seg_start current),
          seg_end = orElse (w_end_ms (last leftTokens)) (seg_end current),
          seg_speaker = orNull (seg_speaker current),
          seg_tokens = Some leftTokens, seg_text = None,
          seg_sentence_break = False,
          seg_prefix_ellipsis = False, seg_suffix_ellipsis = ellipses cfg\<rparr>)"

definition splitRight :: "config \<Rightarrow> segment \<Rightarrow> segment" where
  "splitRight cfg current =
     (let tokens = orElse (seg_tokens current) [];
          rightTokens = drop (findSplitIndex tokens) tokens
      in \<lparr>seg_start = orElse (w_start_ms (hd rightTokens)) (seg_start current),
          seg_end = orElse (w_end_ms (last rightTokens)) (seg_end current),
          seg_speaker = orNull (seg_speaker current),
          seg_tokens = Some rightTokens, seg_text = None,
          seg_sentence_break = seg_sentence_break current,
          seg_prefix_ellipsis = ellipses cfg, seg_suffix_ellipsis = False\<rparr>)"

lemma find_Some_mem: "find P xs = Some j \<Longrightarrow> j \<in> set xs"
  by (auto simp: find_Some_iff)

lemma adjustToSafe_bounds:
  assumes "0 < i" "i < length ws"
  shows "0 < adjustToSafe ws i \<and> adjustToSafe ws i < length ws"
proof -
  have f: "0 < j \<and> j < length ws" if "find (isSafeAt ws) [i + 1 ..< length ws] = Some j" for j
    using find_Some_mem [OF that] by simp
  have b: "0 < j \<and> j < length ws" if "find (isSafeAt ws) (rev [1 ..< i]) = Some j" for j
    using find_Some_mem [OF that] assms by simp
  show ?thesis
    using assms f b by (simp add: adjustToSafe_def split: option.splits)
qed

lemma safeAfterList_bounds: "j \<in> set (safeAfterList ws) \<Longrightarrow> 0 < j \<and> j < length ws"
  by (auto simp: safeAfterList_def)

lemma fold_best_mem:
  "fst (fold (\<lambda>c (b, d). let e = g c in if e < d then (c, e) else (b, d)) xs (b0, d0))
     \<in> insert b0 (set xs)"
  by (induction xs arbitrary: b0 d0) (auto simp: Let_def)

lemma bestSafeIndex_mem: "xs \<noteq> [] \<Longrightarrow> bestSafeIndex cum m xs \<in> set xs"
proof -
  assume ne: "xs \<noteq> []"
  have "bestSafeIndex cum m xs \<in> insert (hd xs) (set xs)"
    unfolding bestSafeIndex_def by (rule fold_best_mem)
  then show ?thesis using ne by auto
qed

lemma findSplitIndex_bounds:
  assumes "2 \<le> length ws"
  shows "0 < findSplitIndex ws \<and> findSplitIndex ws < length ws"
proof -
  let ?mid = "length ws div 2"
  have m: "0 < ?mid \<and> ?mid < length ws" using assms by auto
  have s: "0 < adjustToSafe ws (bestSafeIndex cum md (safeAfterList ws)) \<and>
           adjustToSafe ws (bestSafeIndex cum md (safeAfterList ws)) < length ws"
    if "safeAfterList ws \<noteq> []" for cum md
    using bestSafeIndex_mem [OF that] safeAfterList_bounds adjustToSafe_bounds by blast
  have a: "0 < adjustToSafe ws i \<and> adjustToSafe ws i < length ws"
    if "find (endsSentence ws) (rev [1 ..< ?mid + 1]) = Some i" for i
    using find_Some_mem [OF that] m adjustToSafe_bounds [of i ws] by auto
  have b: "0 < adjustToSafe ws i \<and> adjustToSafe ws i < length ws"
    if "find (endsSentence ws) [?mid + 1 ..< length ws] = Some i" for i
    using find_Some_mem [OF that] m adjustToSafe_bounds [of i ws] by auto
  have c: "0 < adjustToSafe ws ?mid \<and> adjustToSafe ws ?mid < length ws"
    using m adjustToSafe_bounds by blast
  show ?thesis
    using assms s a b c by (simp add: findSplitIndex_def Let_def split: option.splits)
qed

text \<open>
  The work list of the split loop: \<open>queue.shift()\<close> takes the head, the two children are
  put back in front with \<open>unshift\<close>, a finished segment goes to the end of \<open>out\<close>.
  The loop ends because the weights of the queued segments decrease: a segment of \<open>n\<close>
  words weighs \<open>2 n - 1\<close> (and 1 when it has none).
\<close>

definition segWeight :: "segment \<Rightarrow> nat" where
  "segWeight seg = max 1 (2 * length (orElse (seg_tokens seg) []) - 1)"

lemma split_weight:
  assumes "needsSplit cfg current"
  shows "segWeight (splitLeft cfg current) + segWeight (splitRight cfg current) < segWeight current"
proof -
  let ?ts = "orElse (seg_tokens current) []"
  have n: "2 \<le> length ?ts" using assms by (simp add: needsSplit_def)
  from findSplitIndex_bounds [OF n]
  have i: "0 < findSplitIndex ?ts" "findSplitIndex ?ts < length ?ts" by simp_all
  show ?thesis using i
    by (simp add: segWeight_def splitLeft_def splitRight_def Let_def orElse_def) 
qed

function splitQueue :: "config \<Rightarrow> segment list \<Rightarrow> segment list \<Rightarrow> segment list" where
  "splitQueue cfg [] out = out"
| "splitQueue cfg (current # queue) out =
     (if needsSplit cfg current
      then splitQueue cfg (splitLeft cfg current # splitRight cfg current # queue) out
      else splitQueue cfg queue (out @ [current]))"
  by pat_completeness auto
termination
proof (relation "measure (\<lambda>(cfg, queue, out). sum_list (map segWeight queue))")
  show "wf (measure (\<lambda>(cfg, queue, out). sum_list (map segWeight queue)))" by simp
next
  fix cfg current queue out
  assume "needsSplit cfg current"
  then show "((cfg, splitLeft cfg current # splitRight cfg current # queue, out), (cfg, current # queue, out))
      \<in> measure (\<lambda>(cfg, queue, out). sum_list (map segWeight queue))"
    using split_weight [of cfg current] by simp
next
  fix cfg current queue out
  show "((cfg, queue, out @ [current]), (cfg, current # queue, out))
      \<in> measure (\<lambda>(cfg, queue, out). sum_list (map segWeight queue))"
    by (simp add: segWeight_def)
qed

declare splitQueue.simps(2) [simp del]

lemma splitQueue_split:
  "needsSplit cfg current \<Longrightarrow>
   splitQueue cfg (current # queue) out =
     splitQueue cfg (splitLeft cfg current # splitRight cfg current # queue) out"
  by (subst splitQueue.simps(2)) simp

lemma splitQueue_emit:
  "\<not> needsSplit cfg current \<Longrightarrow>
   splitQueue cfg (current # queue) out = splitQueue cfg queue (out @ [current])"
  by (subst splitQueue.simps(2)) simp

definition splitPhase :: "config \<Rightarrow> segment list \<Rightarrow> segment list" where
  "splitPhase cfg segments = foldl (\<lambda>out seg. splitQueue cfg [seg] out) [] segments"

subsection \<open>The merge phase\<close>

text \<open>One pass over \<open>currentSegments\<close> returns the merged list and the flag \<open>changed\<close>;
  the passes repeat while the flag is set.\<close>

definition mergeSegments :: "segment \<Rightarrow> segment \<Rightarrow> segment" where
  "mergeSegments seg nxt =
     \<lparr>seg_start = seg_start seg, seg_end = seg_end nxt,
      seg_speaker = (if seg_speaker seg \<noteq> Undefined \<and> seg_speaker seg \<noteq> Null then seg_speaker seg
                     else orNull (seg_speaker nxt)),
      seg_tokens = Some (orElse (seg_tokens seg) [] @ orElse (seg_tokens nxt) []),
      seg_text = None,
      seg_sentence_break = seg_sentence_break nxt,
      seg_prefix_ellipsis = False, seg_suffix_ellipsis = False\<rparr>"

fun mergePass :: "config \<Rightarrow> segment list \<Rightarrow> segment list \<times> bool" where
  "mergePass cfg [] = ([], False)"
| "mergePass cfg [seg] = ([seg], False)"
| "mergePass cfg (seg # nxt # rest) =
     (if seg_end seg - seg_start seg < min_dur_ms cfg then
        (if segment_on_sentence cfg \<and> seg_sentence_break seg then
           (case mergePass cfg (nxt # rest) of (merged, changed) \<Rightarrow> (seg # merged, changed))
         else if seg_end nxt - seg_start seg \<le> max_dur_ms cfg then
           (case mergePass cfg rest of (merged, changed) \<Rightarrow> (mergeSegments seg nxt # merged, True))
         else
           (case mergePass cfg (nxt # rest) of (merged, changed) \<Rightarrow> (seg # merged, changed)))
      else
        (case mergePass cfg (nxt # rest) of (merged, changed) \<Rightarrow> (seg # merged, changed)))"

lemma mergePass_length:
  "length (fst (mergePass cfg segs)) \<le> length segs \<and>
   (snd (mergePass cfg segs) \<longrightarrow> length (fst (mergePass cfg segs)) < length segs)"
  by (induction segs rule: induct_list012) (auto split: prod.splits)

function mergeLoop :: "config \<Rightarrow> segment list \<Rightarrow> segment list" where
  "mergeLoop cfg currentSegments =
     (case mergePass cfg currentSegments of
        (merged, changed) \<Rightarrow> if changed then mergeLoop cfg merged else merged)"
  by pat_completeness auto
termination
  apply (relation "measure (\<lambda>(cfg, segs). length segs)")
   apply simp
  subgoal premises p for cfg currentSegments merged changed
    using mergePass_length [of cfg currentSegments] p(1) [symmetric] p(2) by simp
  done

declare mergeLoop.simps [simp del]

lemma mergeLoop_unfold:
  "mergeLoop cfg segs =
     (if snd (mergePass cfg segs) then mergeLoop cfg (fst (mergePass cfg segs))
      else fst (mergePass cfg segs))"
  by (subst mergeLoop.simps) (simp add: case_prod_beta)

definition enforceReadability :: "segment list \<Rightarrow> config \<Rightarrow> segment list" where
  "enforceReadability segments cfg = mergeLoop cfg (splitPhase cfg segments)"

subsection \<open>From tokens to segments\<close>

definition tokensToSubtitleSegments :: "token list \<Rightarrow> config \<Rightarrow> segment list" where
  "tokensToSubtitleSegments tokens cfg =
     (let words = tokensToWords tokens;
          segments = buildSegments words (gap_ms cfg) (split_on_speaker cfg) (segment_on_sentence cfg)
      in if length segments = 0 then [] else enforceReadability segments cfg)"



section \<open>The line wrapper\<close>

subsection \<open>Packing delimiter chunks\<close>

text \<open>The loop of \<open>splitTextByDelimiters\<close> over the code points of the cleaned text;
  \<open>current\<close> is the chunk being built.\<close>

fun delimiterLoop :: "jstring list \<Rightarrow> jstring list \<Rightarrow> jstring \<Rightarrow> jstring list" where
  "delimiterLoop delims [] current =
     (let remainder = trim current in if length remainder > 0 then [remainder] else [])"
| "delimiterLoop delims (ch # chs) current =
     (if ch \<in> set delims
      then (let chunk = trim (current @ ch)
            in (if length chunk > 0 then [chunk] else []) @ delimiterLoop delims chs [])
      else delimiterLoop delims chs (current @ ch))"

definition splitTextByDelimiters :: "jstring \<Rightarrow> jstring list \<Rightarrow> jstring list" where
  "splitTextByDelimiters txt delimiters =
     (if txt = [] then []
      else
        let cleaned = map (\<lambda>c. if c = 0x0A then 0x20 else c) txt;
            delimSet = filter (\<lambda>v. length v > 0) delimiters
        in if set delimSet = {} then
             (let stripped = trim cleaned in if stripped \<noteq> [] then [stripped] else [])
           else delimiterLoop delimSet (codePoints cleaned) [])"

text \<open>
  The recursive \<open>helper(start, remaining)\<close> of \<open>partitionChunks\<close> with its inner loop over
  \<open>end\<close>: the chunks from \<open>start\<close> on are the list argument, \<open>line\<close> is the line built so
  far.  \<open>None\<close> is \<open>null\<close>.
\<close>

fun helper :: "int \<Rightarrow> nat \<Rightarrow> jstring list \<Rightarrow> jstring list option"
  and helperLoop :: "int \<Rightarrow> nat \<Rightarrow> jstring \<Rightarrow> jstring list \<Rightarrow> jstring list option" where
  "helper maxCpl remaining [] = Some []"
| "helper maxCpl 0 (c # cs) = None"
| "helper maxCpl (Suc r) (c # cs) = helperLoop maxCpl r [] (c # cs)"
| "helperLoop maxCpl r line [] = None"
| "helperLoop maxCpl r line (c # cs) =
     (let line' = (if length line > 0 then line @ [0x20] @ c else c)
      in if int (length line') > maxCpl then None
         else (case helper maxCpl r cs of
                 Some rest \<Rightarrow> Some (line' # rest)
               | None \<Rightarrow> helperLoop maxCpl r line' cs))"

definition partitionChunks :: "jstring list \<Rightarrow> int \<Rightarrow> int \<Rightarrow> jstring list option" where
  "partitionChunks chunks maxLines maxCpl =
     (if maxLines \<le> 0 then Some []
      else if length chunks = 0 then Some []
      else helper maxCpl (nat maxLines) chunks)"

definition wrapWithPreferredDelimiters ::
  "jstring \<Rightarrow> jstring list \<Rightarrow> int \<Rightarrow> int \<Rightarrow> jstring list option" where
  "wrapWithPreferredDelimiters txt delimiters maxCpl maxLines =
     (if maxLines \<le> 1 then None
      else
        let chunks = splitTextByDelimiters txt delimiters in
        if length chunks \<le> 1 then None
        else case partitionChunks chunks maxLines maxCpl of
               None \<Rightarrow> None
             | Some parts \<Rightarrow>
                 (let lines = filter (\<lambda>line. length line > 0) (map trim parts)
                  in if length lines \<le> 1 then None else Some (slice 0 maxLines lines)))"

subsection \<open>The naive wrapper\<close>

text \<open>The search outward from \<open>target\<close> for a space; \<open>deltas\<close> are the values of
  \<open>delta\<close> still to try.\<close>

fun findBreak :: "jstring \<Rightarrow> nat \<Rightarrow> nat list \<Rightarrow> nat option" where
  "findBreak trimmed target [] = None"
| "findBreak trimmed target (delta # deltas) =
     (if int target - int delta > 0 \<and> trimmed ! (target - delta) = 0x20
      then Some (target - delta)
      else if target + delta < length trimmed \<and> trimmed ! (target + delta) = 0x20
      then Some (target + delta)
      else findBreak trimmed target deltas)"

definition wrapTwoLinesNaive :: "jstring \<Rightarrow> int \<Rightarrow> int \<Rightarrow> jstring list \<Rightarrow> jstring list" where
  "wrapTwoLinesNaive txt maxCpl maxLines preferredDelimiters =
     (let trimmed = trim txt in
      if maxLines \<le> 1 then [trimmed]
      else
        case (if length preferredDelimiters > 0
              then wrapWithPreferredDelimiters trimmed preferredDelimiters maxCpl maxLines
              else None) of
          Some lines \<Rightarrow> lines
        | None \<Rightarrow>
            if int (length trimmed) \<le> maxCpl then [trimmed]
            else if 0x20 \<in> set trimmed then
              (let target = length trimmed div 2;
                   breakPos =
                     (case findBreak trimmed target [0 ..< length trimmed] of
                        Some p \<Rightarrow> int p
                      | None \<Rightarrow> min (int (length trimmed)) maxCpl);
                   line1 = trim (slice 0 breakPos trimmed);
                   line2 = trim (slice breakPos (int (length trimmed)) trimmed);
                   line1' = (if int (length line1) > maxCpl
                             then trimEnd (slice 0 maxCpl line1) else line1);
                   line2' = (if int (length line2) > maxCpl \<and> maxLines > 1
                             then trimEnd (slice 0 maxCpl line2) else line2)
               in if maxLines \<ge> 2 then [line1', line2'] else [line1'])
            else
              (let line1 = slice 0 maxCpl trimmed;
                   line2 = slice maxCpl (maxCpl * 2) trimmed
               in if line2 \<noteq> [] then (if maxLines \<ge> 2 then [line1, line2] else [line1])
                  else [line1]))"

subsection \<open>The token-aware wrapper\<close>

text \<open>Membership of \<open>i\<close> in the set \<open>safeAfter\<close> of \<open>wrapTwoLinesTokenAware\<close>.\<close>

definition lineSafeAfter :: "word list \<Rightarrow> nat \<Rightarrow> bool" where
  "lineSafeAfter tokens i \<longleftrightarrow>
     i + 1 < length tokens \<and> w_text (tokens ! (i + 1)) \<noteq> [] \<and>
     safeBoundary (w_text (tokens ! i)) (w_text (tokens ! (i + 1)))"

text \<open>One round of the \<open>while (candidate >= 0)\<close> loop: the two lines when \<open>candidate\<close> is
  a safe boundary and both sides fit.\<close>

definition tryCandidate :: "word list \<Rightarrow> int \<Rightarrow> nat \<Rightarrow> jstring list option" where
  "tryCandidate tokens maxCpl candidate =
     (if lineSafeAfter tokens candidate then
        (let left = trimEnd (concatText (take (candidate + 1) tokens)) in
         if int (length left) \<le> maxCpl then
           (let right = trimStart (concatText (drop (candidate + 1) tokens)) in
            if int (length right) \<le> maxCpl then Some [left, right] else None)
         else None)
      else None)"

fun firstSome :: "('a \<Rightarrow> 'b option) \<Rightarrow> 'a list \<Rightarrow> 'b option" where
  "firstSome f [] = None"
| "firstSome f (x # xs) = (case f x of Some y \<Rightarrow> Some y | None \<Rightarrow> firstSome f xs)"

text \<open>
  The first loop: \<open>ts\<close> are the words from index \<open>i\<close> on, \<open>charLen\<close> and \<open>lastSafe\<close> the
  loop variables.  The result is the pair of lines the loop returns, or \<open>None\<close> when it
  ends or breaks without returning.
\<close>

fun walkLines ::
  "word list \<Rightarrow> int \<Rightarrow> word list \<Rightarrow> nat \<Rightarrow> nat \<Rightarrow> nat option \<Rightarrow> jstring list option" where
  "walkLines tokens maxCpl [] i charLen lastSafe = None"
| "walkLines tokens maxCpl (t # ts) i charLen lastSafe =
     (let charLen' = charLen + length (w_text t);
          lastSafe' = (if lineSafeAfter tokens i then Some i else lastSafe)
      in if int charLen' > maxCpl then
           (case lastSafe' of
              Some l \<Rightarrow> firstSome (tryCandidate tokens maxCpl) (rev [0 ..< l + 1])
            | None \<Rightarrow> None)
         else walkLines tokens maxCpl ts (i + 1) charLen' lastSafe')"

text \<open>The second loop: the safe boundary whose running total is nearest to \<open>target\<close>;
  \<open>bestDelta = None\<close> is the initial \<open>Number.POSITIVE_INFINITY\<close>.\<close>

definition nearestSafe :: "word list \<Rightarrow> nat option" where
  "nearestSafe tokens =
     (let totalChars = sum_list (map (\<lambda>t. length (w_text t)) tokens);
          target = totalChars div 2
      in fst (snd (fold
           (\<lambda>i (acc, nearest, bestDelta).
              let acc' = acc + length (w_text (tokens ! i)) in
              if lineSafeAfter tokens i then
                (let delta = \<bar>int acc' - int target\<bar> in
                 if (case bestDelta of None \<Rightarrow> True | Some b \<Rightarrow> delta < b)
                 then (acc', Some i, Some delta) else (acc', nearest, bestDelta))
              else (acc', nearest, bestDelta))
           [0 ..< length tokens - 1] (0, None, None))))"

definition tokenAwareSplit :: "word list \<Rightarrow> jstring \<Rightarrow> int \<Rightarrow> jstring list" where
  "tokenAwareSplit tokens stripped maxCpl =
     (case walkLines tokens maxCpl tokens 0 0 None of
        Some lines \<Rightarrow> lines
      | None \<Rightarrow>
          (case nearestSafe tokens of
             Some nearest \<Rightarrow>
               (let left = trimEnd (concatText (take (nearest + 1) tokens));
                    right = trimStart (concatText (drop (nearest + 1) tokens))
                in if int (length left) \<le> maxCpl \<and> int (length right) \<le> maxCpl
                   then [left, right] else [stripped])
           | None \<Rightarrow> [stripped]))"

definition wrapTwoLinesTokenAware ::
  "word list \<Rightarrow> jstring \<Rightarrow> int \<Rightarrow> int \<Rightarrow> jstring list \<Rightarrow> jstring list" where
  "wrapTwoLinesTokenAware tokens txt maxCpl maxLines preferredDelimiters =
     (let stripped = trim txt in
      if maxLines \<le> 1 then [stripped]
      else
        case (if length preferredDelimiters > 0
              then wrapWithPreferredDelimiters stripped preferredDelimiters maxCpl maxLines
              else None) of
          Some lines \<Rightarrow> lines
        | None \<Rightarrow>
            if int (length stripped) \<le> maxCpl then [stripped]
            else tokenAwareSplit tokens stripped maxCpl)"

section \<open>The cue renderer\<close>

record entry =
  e_index :: nat
  e_start_ms :: real
  e_end_ms :: real
  e_lines :: "jstring list"

definition renderSegment :: "config \<Rightarrow> nat \<Rightarrow> segment \<Rightarrow> entry" where
  "renderSegment cfg index seg =
     (let t0 = segmentText seg;
          t1 = (if seg_prefix_ellipsis seg then [0x2026] @ t0 else t0);
          t2 = (if seg_suffix_ellipsis seg then t1 @ [0x2026] else t1);
          lines =
            (case seg_tokens seg of
               Some tokens \<Rightarrow>
                 (if length tokens > 0
                  then wrapTwoLinesTokenAware tokens t2 (max_cpl cfg) (max_lines cfg)
                         (line_split_delimiters cfg)
                  else wrapTwoLinesNaive t2 (max_cpl cfg) (max_lines cfg)
                         (line_split_delimiters cfg))
             | None \<Rightarrow>
                 wrapTwoLinesNaive t2 (max_cpl cfg) (max_lines cfg) (line_split_delimiters cfg))
      in \<lparr>e_index = index + 1, e_start_ms = seg_start seg, e_end_ms = seg_end seg,
          e_lines = slice 0 (max_lines cfg) lines\<rparr>)"

text \<open>\<open>segments.forEach((segment, index) => ...)\<close>: the index is the position.\<close>

definition renderSegments :: "segment list \<Rightarrow> config \<Rightarrow> entry list" where
  "renderSegments segments cfg =
     map (\<lambda>(index, seg). renderSegment cfg index seg) (zip [0 ..< length segments] segments)"

subsection \<open>Timestamps\<close>

text \<open>\<open>n.toString()\<close> of a non-negative integer below \<open>10^21\<close> (above, JavaScript
  switches to exponent notation) and \<open>padStart\<close> with a one-character filler.\<close>

fun numToString :: "nat \<Rightarrow> jstring" where
  "numToString n =
     (if n < 10 then [0x30 + n] else numToString (n div 10) @ [0x30 + n mod 10])"

declare numToString.simps [simp del]

definition padStart :: "nat \<Rightarrow> jchar \<Rightarrow> jstring \<Rightarrow> jstring" where
  "padStart targetLength c s = replicate (targetLength - length s) c @ s"

definition formatTimestamp :: "real \<Rightarrow> jstring" where
  "formatTimestamp ms =
     (let millis = nat (max 0 \<lfloor>ms\<rfloor>);
          totalSeconds = millis div 1000;
          remainderMillis = millis mod 1000;
          seconds = totalSeconds mod 60;
          totalMinutes = totalSeconds div 60;
          minutes = totalMinutes mod 60;
          hours = totalMinutes div 60
      in padStart 2 0x30 (numToString hours) @ [0x3A] @
         padStart 2 0x30 (numToString minutes) @ [0x3A] @
         padStart 2 0x30 (numToString seconds) @ [0x2C] @
         padStart 3 0x30 (numToString remainderMillis))"


section \<open>Transcripts, files and the entry point\<close>

text \<open>
  A transcript is the value \<open>JSON.parse\<close> returns.  An object is the list of its
  properties with distinct names; \<open>getProp\<close> reads a property, \<open>None\<close> being
  \<open>undefined\<close>.  The transcript itself is taken to be an object or another non-null
  value, as the type \<open>Transcript\<close> says (reading a property of \<open>null\<close> would raise a
  \<open>TypeError\<close>).
\<close>

datatype json =
  JNull | JBool bool | JNum real | JStr jstring | JArr "json list" | JObj "(string \<times> json) list"

definition getProp :: "json \<Rightarrow> string \<Rightarrow> json option" where
  "getProp v key = (case v of JObj kvs \<Rightarrow> map_of kvs key | _ \<Rightarrow> None)"

definition NESTED_TOKEN_KEYS :: "string list" where
  "NESTED_TOKEN_KEYS =
     [''alternatives'', ''segments'', ''paragraphs'', ''turns'', ''entries'', ''results'', ''items'']"

definition isTokenLike :: "json \<Rightarrow> bool" where
  "isTokenLike item = (case item of JObj kvs \<Rightarrow> map_of kvs ''text'' \<noteq> None | _ \<Rightarrow> False)"

text \<open>\<open>Array.isArray(v) && v.length > 0\<close>, with the array.\<close>

definition nonEmptyArray :: "json option \<Rightarrow> json list option" where
  "nonEmptyArray v =
     (case v of Some (JArr items) \<Rightarrow> (if length items > 0 then Some items else None) | _ \<Rightarrow> None)"

text \<open>A property value is smaller than its object: the recursion of \<open>collectTokens\<close>
  into the nested containers ends.\<close>

lemma map_of_size:
  "map_of kvs key = Some (v::json) \<Longrightarrow> size v < Suc (size_list (size_prod (\<lambda>x. 0) size) kvs)"
proof (induction kvs)
  case Nil
  then show ?case by simp
next
  case (Cons kv kvs)
  then show ?case by (cases kv) (auto split: if_splits)
qed

function collectTokens :: "json \<Rightarrow> bool \<Rightarrow> json list" where
  "collectTokens JNull skipImmediate = []"
| "collectTokens (JBool b) skipImmediate = []"
| "collectTokens (JNum x) skipImmediate = []"
| "collectTokens (JStr s) skipImmediate = []"
| "collectTokens (JArr items) skipImmediate =
     (if length items > 0 \<and> list_all isTokenLike items then items
      else concat (map (\<lambda>item. collectTokens item False) items))"
| "collectTokens (JObj kvs) skipImmediate =
     (case (if \<not> skipImmediate then nonEmptyArray (map_of kvs ''tokens'') else None) of
        Some tokens \<Rightarrow> tokens
      | None \<Rightarrow> []) @
     concat (map (\<lambda>key. case map_of kvs key of
                          None \<Rightarrow> []
                        | Some nested \<Rightarrow> collectTokens nested False)
               NESTED_TOKEN_KEYS)"
  by pat_completeness auto
termination
proof (relation "measure (\<lambda>(v, skip). size v)")
  show "wf (measure (\<lambda>(v, skip). size v))" by simp
next
  fix items :: "json list" and skipImmediate item
  assume "item \<in> set items"
  then have "size item < Suc (size_list size items)"
    by (induction items) auto
  then show "((item, False), (JArr items, skipImmediate)) \<in> measure (\<lambda>(v, skip). size v)"
    by simp
next
  fix kvs :: "(string \<times> json) list" and skipImmediate key nested
  assume "map_of kvs key = Some nested"
  from map_of_size [OF this]
  show "((nested, False), (JObj kvs, skipImmediate)) \<in> measure (\<lambda>(v, skip). size v)"
    by simp
qed

text \<open>The errors \<open>srt\<close> can end with: the file of the transcript cannot be read or
  parsed, \<open>"No tokens found in transcript."\<close>, and
  \<open>"No subtitle segments produced from transcript."\<close>.\<close>

datatype srt_error = ReadFailed | ParseFailed | NoTokens | NoSegments

definition extractTokens :: "json \<Rightarrow> srt_error + json list" where
  "extractTokens transcript =
     (case nonEmptyArray (getProp transcript ''tokens'') of
        Some tokens \<Rightarrow> Inr tokens
      | None \<Rightarrow>
          (let nested = collectTokens transcript True
           in if length nested > 0 then Inr nested else Inl NoTokens))"

text \<open>
  Reading a token object as a \<open>Token\<close>.  The type asks for a string \<open>text\<close>, numbers
  \<open>start_ms\<close> and \<open>end_ms\<close>, and a string or null \<open>speaker\<close>; a property of another
  kind is read as missing.
\<close>

definition truthy :: "json option \<Rightarrow> bool" where
  "truthy v =
     (case v of
        None \<Rightarrow> False
      | Some JNull \<Rightarrow> False
      | Some (JBool b) \<Rightarrow> b
      | Some (JNum x) \<Rightarrow> x \<noteq> 0
      | Some (JStr s) \<Rightarrow> s \<noteq> []
      | Some _ \<Rightarrow> True)"

definition asToken :: "json \<Rightarrow> token" where
  "asToken v =
     \<lparr>tk_text = (case getProp v ''text'' of Some (JStr s) \<Rightarrow> s | _ \<Rightarrow> []),
      tk_start_ms = (case getProp v ''start_ms'' of Some (JNum x) \<Rightarrow> Some x | _ \<Rightarrow> None),
      tk_end_ms = (case getProp v ''end_ms'' of Some (JNum x) \<Rightarrow> Some x | _ \<Rightarrow> None),
      tk_speaker = (case getProp v ''speaker'' of
                      Some (JStr s) \<Rightarrow> Name s | Some JNull \<Rightarrow> Null | _ \<Rightarrow> Undefined),
      tk_prefix_space = truthy (getProp v ''_prefix_space'')\<rparr>"

text \<open>
  The file system is a map from (resolved) paths to contents; \<open>writeSrtFile\<close> is the only
  operation of the program that changes it.  \<open>joinLines\<close> is \<open>chunks.join("\n")\<close>.
\<close>

fun joinLines :: "jstring list \<Rightarrow> jstring" where
  "joinLines [] = []"
| "joinLines [x] = x"
| "joinLines (x # y # zs) = x @ [0x0A] @ joinLines (y # zs)"

definition entryChunks :: "entry \<Rightarrow> jstring list" where
  "entryChunks e =
     [numToString (e_index e),
      formatTimestamp (e_start_ms e) @ [0x20, 0x2D, 0x2D, 0x3E, 0x20] @ formatTimestamp (e_end_ms e)]
     @ e_lines e @ [[]]"

type_synonym files = "jstring \<Rightarrow> jstring option"

definition writeSrtFile :: "entry list \<Rightarrow> jstring \<Rightarrow> files \<Rightarrow> files" where
  "writeSrtFile entries outputPath fs =
     fs(outputPath \<mapsto> joinLines (concat (map entryChunks entries)) @ [0x0A])"

text \<open>
  \<open>srt\<close> takes the transcript or the path of its file.  \<open>JSON.parse\<close> is a parameter:
  \<open>None\<close> is a syntax error.  The result is the returned path or the error raised,
  together with the file system afterwards.  The \<open>console.info\<close> lines are left out.
\<close>

datatype transcriptArg = Data json | Path jstring

definition loadTranscript ::
  "(jstring \<Rightarrow> json option) \<Rightarrow> transcriptArg \<Rightarrow> files \<Rightarrow> srt_error + json" where
  "loadTranscript parse transcript fs =
     (case transcript of
        Data d \<Rightarrow> Inr d
      | Path p \<Rightarrow>
          (case fs p of
             None \<Rightarrow> Inl ReadFailed
           | Some raw \<Rightarrow> (case parse raw of None \<Rightarrow> Inl ParseFailed | Some d \<Rightarrow> Inr d)))"

definition srt ::
  "(jstring \<Rightarrow> json option) \<Rightarrow> transcriptArg \<Rightarrow> jstring \<Rightarrow> config \<Rightarrow> files
     \<Rightarrow> (srt_error + jstring) \<times> files" where
  "srt parse transcript outputPath cfg fs =
     (case loadTranscript parse transcript fs of
        Inl e \<Rightarrow> (Inl e, fs)
      | Inr d \<Rightarrow>
          (case extractTokens d of
             Inl e \<Rightarrow> (Inl e, fs)
           | Inr tokens \<Rightarrow>
               (let segments = tokensToSubtitleSegments (map asToken tokens) cfg in
                if length segments = 0 then (Inl NoSegments, fs)
                else
                  let entries = renderSegments segments cfg
                  in (Inr outputPath, writeSrtFile entries outputPath fs))))"

section \<open>Properties of the word assembler: conservation of tokens and text\<close>

text \<open>
  \<open>unmark\<close> forgets the \<open>_prefix_space\<close> mark that the assembler writes on a token,
  so that the tokens referenced by the words can be compared with the input tokens.
  \<open>tw_tokens\<close> and \<open>tw_emitted\<close> are the tokens and the text a state accounts for:
  those of the finished words, then those of the pending word.  \<open>plainLead\<close> holds of a
  token that carries no mark of its own and whose text starts with at most one white space
  character, which is then U+0020.
\<close>

definition unmark :: "token \<Rightarrow> token" where
  "unmark t = t\<lparr>tk_prefix_space := False\<rparr>"

definition tw_tokens :: "tw_state \<Rightarrow> token list" where
  "tw_tokens st = concat (map w_inner (tw_words st)) @ tw_currentTokens st"

definition tw_pending :: "tw_state \<Rightarrow> jstring" where
  "tw_pending st =
     (if tw_currentTokens st = [] then []
      else (if tk_prefix_space (hd (tw_currentTokens st)) then [0x20] else []) @
           concat (tw_currentText st))"

definition tw_emitted :: "tw_state \<Rightarrow> jstring" where
  "tw_emitted st = concat (map w_text (tw_words st)) @ tw_pending st"

definition tw_ok :: "tw_state \<Rightarrow> bool" where
  "tw_ok st = (tw_currentTokens st = [] \<longrightarrow> tw_currentText st = [])"

definition plainLead :: "token \<Rightarrow> bool" where
  "plainLead t = (\<not> tk_prefix_space t \<and>
     (case tk_text t of [] \<Rightarrow> True
      | c # rest \<Rightarrow> (if is_ws c then c = 0x20 \<and> (case rest of [] \<Rightarrow> True | d # _ \<Rightarrow> \<not> is_ws d) else True)))"

lemma flush_tokens: "tw_tokens (flush st) = tw_tokens st"
  by (simp add: tw_tokens_def flush_def Let_def)

lemma flush_emitted: "tw_emitted (flush st) = tw_emitted st"
  by (simp add: tw_emitted_def tw_pending_def flush_def Let_def)

lemma flush_ok: "tw_ok st \<Longrightarrow> tw_ok (flush st)"
  by (simp add: tw_ok_def flush_def Let_def)

lemma flush_current: "tw_currentTokens (flush st) = []"
  by (simp add: flush_def Let_def)

lemma flush_pending: "tw_pending (flush st) = []"
  by (simp add: tw_pending_def flush_current)

lemma add_tokens:
  "tw_tokens (addToCurrent tok c p st) = tw_tokens st @ [if p then tok\<lparr>tk_prefix_space := True\<rparr> else tok]"
  by (simp add: tw_tokens_def addToCurrent_def)

lemma add_ok: "tw_ok (addToCurrent tok c p st)"
  by (simp add: tw_ok_def addToCurrent_def)

lemma add_emitted_nonempty:
  "tw_currentTokens st \<noteq> [] \<Longrightarrow> tw_emitted (addToCurrent tok c p st) = tw_emitted st @ c"
  by (simp add: tw_emitted_def tw_pending_def addToCurrent_def)

lemma add_emitted_empty:
  "tw_currentTokens st = [] \<Longrightarrow> tw_ok st \<Longrightarrow>
   tw_emitted (addToCurrent tok c p st) =
     tw_emitted st @ (if p \<or> tk_prefix_space tok then [0x20] else []) @ c"
  by (simp add: tw_emitted_def tw_pending_def addToCurrent_def tw_ok_def)

lemma unmark_mark: "unmark (t\<lparr>tk_prefix_space := True\<rparr>) = unmark t"
  by (simp add: unmark_def)

lemma step_ok: "tw_ok st \<Longrightarrow> tw_ok (tw_step st tok)"
  by (simp add: tw_step_def Let_def flush_ok add_ok)

lemma step_tokens:
  "map unmark (tw_tokens (tw_step st tok)) =
     map unmark (tw_tokens st) @ (if tk_text tok = [] then [] else [unmark tok])"
  by (simp add: tw_step_def Let_def flush_tokens add_tokens unmark_mark)

lemma removeWs_Nil: "removeWs [] = []"
  by (simp add: removeWs_def)

lemma removeWs_append: "removeWs (a @ b) = removeWs a @ removeWs b"
  by (simp add: removeWs_def)

lemma removeWs_trimStart: "removeWs (trimStart s) = removeWs s"
  unfolding removeWs_def trimStart_def by (induction s) auto

lemma removeWs_space: "removeWs [0x20] = []"
  by (simp add: removeWs_def is_ws_def)

lemma add_emitted:
  "tw_ok s \<Longrightarrow>
   tw_emitted (addToCurrent tok c p s) =
     tw_emitted s @
     (if tw_currentTokens s = [] \<and> (p \<or> tk_prefix_space tok) then [0x20] else []) @ c"
  by (cases "tw_currentTokens s = []") (simp_all add: add_emitted_empty add_emitted_nonempty)

lemma tw_step_shape:
  "tk_text tok \<noteq> [] \<Longrightarrow>
   \<exists>s. (s = st \<or> s = flush st) \<and> (is_ws (hd (tk_text tok)) \<longrightarrow> s = flush st) \<and>
     (tw_step st tok = addToCurrent tok (trimStart (tk_text tok)) (is_ws (hd (tk_text tok))) s \<or>
      tw_step st tok = flush (addToCurrent tok (trimStart (tk_text tok)) (is_ws (hd (tk_text tok))) s))"
  unfolding tw_step_def Let_def by auto

lemma step_emitted_ws:
  assumes "tw_ok st"
  shows "removeWs (tw_emitted (tw_step st tok)) = removeWs (tw_emitted st) @ removeWs (tk_text tok)"
proof (cases "tk_text tok = []")
  case True
  then show ?thesis by (simp add: tw_step_def removeWs_Nil)
next
  case False
  from tw_step_shape [OF False, of st] obtain s where
    s: "s = st \<or> s = flush st" and
    r: "tw_step st tok = addToCurrent tok (trimStart (tk_text tok)) (is_ws (hd (tk_text tok))) s \<or>
        tw_step st tok = flush (addToCurrent tok (trimStart (tk_text tok)) (is_ws (hd (tk_text tok))) s)"
    by blast
  have ok: "tw_ok s" using s assms flush_ok by blast
  have es: "tw_emitted s = tw_emitted st" using s flush_emitted by auto
  have "removeWs (tw_emitted (addToCurrent tok (trimStart (tk_text tok)) (is_ws (hd (tk_text tok))) s))
         = removeWs (tw_emitted st) @ removeWs (tk_text tok)"
    by (simp add: add_emitted [OF ok] es removeWs_append removeWs_trimStart removeWs_space removeWs_Nil)
  then show ?thesis using r by (auto simp: flush_emitted)
qed

lemma trimStart_plain:
  "plainLead t \<Longrightarrow> tk_text t \<noteq> [] \<Longrightarrow>
   (if is_ws (hd (tk_text t)) then [0x20] else []) @ trimStart (tk_text t) = tk_text t"
  by (auto simp: plainLead_def trimStart_def split: list.splits if_splits)

lemma step_emitted_exact:
  assumes "tw_ok st" "plainLead tok"
  shows "tw_emitted (tw_step st tok) = tw_emitted st @ tk_text tok"
proof (cases "tk_text tok = []")
  case True
  then show ?thesis by (simp add: tw_step_def)
next
  case False
  note tp = trimStart_plain [OF assms(2) False]
  have np: "\<not> tk_prefix_space tok" using assms(2) by (simp add: plainLead_def)
  from tw_step_shape [OF False, of st] obtain s where
    s: "s = st \<or> s = flush st" and
    l: "is_ws (hd (tk_text tok)) \<longrightarrow> s = flush st" and
    r: "tw_step st tok = addToCurrent tok (trimStart (tk_text tok)) (is_ws (hd (tk_text tok))) s \<or>
        tw_step st tok = flush (addToCurrent tok (trimStart (tk_text tok)) (is_ws (hd (tk_text tok))) s)"
    by blast
  have ok: "tw_ok s" using s assms flush_ok by blast
  have es: "tw_emitted s = tw_emitted st" using s flush_emitted by auto
  have "tw_emitted (addToCurrent tok (trimStart (tk_text tok)) (is_ws (hd (tk_text tok))) s)
         = tw_emitted st @ (if is_ws (hd (tk_text tok)) then [0x20] else []) @ trimStart (tk_text tok)"
    using l by (simp add: add_emitted [OF ok] es np flush_current)
  then have "tw_emitted (addToCurrent tok (trimStart (tk_text tok)) (is_ws (hd (tk_text tok))) s)
         = tw_emitted st @ tk_text tok"
    using tp by simp
  then show ?thesis using r by (auto simp: flush_emitted)
qed

lemma foldl_ok: "tw_ok st \<Longrightarrow> tw_ok (foldl tw_step st ts)"
  by (induction ts arbitrary: st) (simp_all add: step_ok)

lemma foldl_tokens:
  "map unmark (tw_tokens (foldl tw_step st ts)) =
     map unmark (tw_tokens st) @ map unmark (filter (\<lambda>t. tk_text t \<noteq> []) ts)"
  by (induction ts arbitrary: st) (simp_all add: step_tokens)

lemma foldl_emitted_ws:
  "tw_ok st \<Longrightarrow> removeWs (tw_emitted (foldl tw_step st ts)) =
     removeWs (tw_emitted st) @ removeWs (concat (map tk_text ts))"
  by (induction ts arbitrary: st) (simp_all add: step_emitted_ws step_ok removeWs_append removeWs_Nil)

lemma foldl_emitted_exact:
  "tw_ok st \<Longrightarrow> list_all plainLead ts \<Longrightarrow>
   tw_emitted (foldl tw_step st ts) = tw_emitted st @ concat (map tk_text ts)"
  by (induction ts arbitrary: st) (simp_all add: step_emitted_exact step_ok)

lemma init_facts: "tw_ok tw_init" "tw_tokens tw_init = []" "tw_emitted tw_init = []"
  by (simp_all add: tw_ok_def tw_init_def tw_tokens_def tw_emitted_def tw_pending_def)

lemma words_flush_emitted: "tw_emitted st = concat (map w_text (tw_words (flush st)))"
  using flush_emitted [of st] by (simp add: tw_emitted_def flush_pending)

lemma words_flush_tokens: "concat (map w_inner (tw_words (flush st))) = tw_tokens st"
  using flush_tokens [of st] by (simp add: tw_tokens_def flush_current)

lemma tokensToWords_inner:
  "concat (map w_inner (tokensToWords ts)) = tw_tokens (foldl tw_step tw_init ts)"
  using words_flush_tokens [of "foldl tw_step tw_init ts"]
  by (auto simp: tokensToWords_def Let_def split: list.splits)

lemma dropWhile_dropWhile_append: "dropWhile P (dropWhile P a @ b) = dropWhile P (a @ b)"
  by (induction a) auto

lemma trim_trimStart_append: "trim (trimStart a @ b) = trim (a @ b)"
  by (simp add: trim_def trimStart_def dropWhile_dropWhile_append)

lemma tokensToWords_text_ws:
  "removeWs (concat (map w_text (tokensToWords ts))) = removeWs (tw_emitted (foldl tw_step tw_init ts))"
  by (auto simp: tokensToWords_def Let_def words_flush_emitted removeWs_append removeWs_trimStart removeWs_Nil split: list.splits)

lemma tokensToWords_text_trim:
  "trim (concat (map w_text (tokensToWords ts))) = trim (tw_emitted (foldl tw_step tw_init ts))"
  by (auto simp: tokensToWords_def Let_def words_flush_emitted trim_trimStart_append split: list.splits)

definition plainToken :: "jstring \<Rightarrow> real \<Rightarrow> real \<Rightarrow> token" where
  "plainToken s a b = \<lparr>tk_text = s, tk_start_ms = Some a, tk_end_ms = Some b,
     tk_speaker = Undefined, tk_prefix_space = False\<rparr>"

text \<open>The tokens \<open>"Hello"\<close>, \<open>" world"\<close>, \<open>"."\<close> of the specification's scenario.\<close>

definition helloWorldTokens :: "token list" where
  "helloWorldTokens =
     [plainToken [0x48, 0x65, 0x6C, 0x6C, 0x6F] 0 500,
      plainToken [0x20, 0x77, 0x6F, 0x72, 0x6C, 0x64] 500 1000,
      plainToken [0x2E] 1000 1000]"

text \<open>A token without text, then \<open>"a"\<close>, then \<open>"  b"\<close> with two leading spaces.\<close>

definition doubleSpaceTokens :: "token list" where
  "doubleSpaceTokens =
     [plainToken [] 0 0, plainToken [0x61] 0 500, plainToken [0x20, 0x20, 0x62] 500 1000]"

lemmas tw_eval_defs =
  tokensToWords_def tw_step_def flush_def addToCurrent_def tw_init_def plainToken_def
  trimStart_def trimEnd_def trim_def is_ws_def startsWithSpace_def lastChar_def orElse_def
  SENTENCE_ENDERS_def MINOR_BREAKERS_def PUNCT_def containsCjk_def isCjkCode_def
  codePointAt0_def Let_def

text \<open>
  Claim C1, as amended.  The words reference every token with a non-empty text exactly
  once, in the original order (tokens with an empty text are skipped and belong to no
  word).  The concatenated word texts and the concatenated token texts agree once white
  space is removed; they agree after trimming when every token is \<open>plainLead\<close>, since the
  assembler keeps a single space of each token's leading white space.
\<close>

theorem tokensToWords_conservation:
  "map unmark (concat (map w_inner (tokensToWords ts))) =
     map unmark (filter (\<lambda>t. tk_text t \<noteq> []) ts) \<and>
   removeWs (concat (map w_text (tokensToWords ts))) = removeWs (concat (map tk_text ts)) \<and>
   (list_all plainLead ts \<longrightarrow>
      trim (concat (map w_text (tokensToWords ts))) = trim (concat (map tk_text ts)))"
  by (simp add: tokensToWords_inner foldl_tokens init_facts tokensToWords_text_ws
      foldl_emitted_ws tokensToWords_text_trim foldl_emitted_exact removeWs_Nil)

theorem tokensToWords_conservation_witness:
  "list_all plainLead helloWorldTokens \<and>
   trim (concat (map w_text (tokensToWords helloWorldTokens))) =
     trim (concat (map tk_text helloWorldTokens)) \<and>
   map unmark (concat (map w_inner (tokensToWords helloWorldTokens))) =
     map unmark (filter (\<lambda>t. tk_text t \<noteq> []) helloWorldTokens)"
proof -
  have p: "list_all plainLead helloWorldTokens"
    by (simp add: helloWorldTokens_def plainLead_def plainToken_def is_ws_def)
  show ?thesis
    using p tokensToWords_conservation [of helloWorldTokens] by simp
qed

text \<open>
  Claim C1 as stated fails on \<open>doubleSpaceTokens\<close>: the token without text is in no word,
  and the two leading spaces of \<open>"  b"\<close> come out as one, so the trimmed texts differ
  (\<open>"a b"\<close> for the words, or \<open>"ab"\<close> when each word is trimmed on its own, against
  \<open>"a  b"\<close> for the tokens).
\<close>

theorem tokensToWords_conservation_counterexample:
  "map unmark (concat (map w_inner (tokensToWords doubleSpaceTokens))) \<noteq>
     map unmark doubleSpaceTokens \<and>
   trim (concat (map w_text (tokensToWords doubleSpaceTokens))) = [0x61, 0x20, 0x62] \<and>
   concat (map (\<lambda>w. trim (w_text w)) (tokensToWords doubleSpaceTokens)) = [0x61, 0x62] \<and>
   trim (concat (map tk_text doubleSpaceTokens)) = [0x61, 0x20, 0x20, 0x62]"
  by (simp add: doubleSpaceTokens_def tw_eval_defs)


section \<open>Properties of the readability enforcer\<close>

subsection \<open>Example words and segments\<close>

definition plainWord :: "jstring \<Rightarrow> real \<Rightarrow> real \<Rightarrow> word" where
  "plainWord s a b = \<lparr>w_text = s, w_start_ms = Some a, w_end_ms = Some b,
     w_speaker = Undefined, w_inner = [], w_prefix_space = False\<rparr>"

definition wordSegment :: "word list \<Rightarrow> real \<Rightarrow> real \<Rightarrow> segment" where
  "wordSegment ws a b = \<lparr>seg_start = a, seg_end = b, seg_speaker = Null,
     seg_tokens = Some ws, seg_text = None, seg_sentence_break = False,
     seg_prefix_ellipsis = False, seg_suffix_ellipsis = False\<rparr>"

definition helloWord :: word where
  "helloWord = plainWord [0x48, 0x65, 0x6C, 0x6C, 0x6F] 0 100"

definition worldWord :: word where
  "worldWord = plainWord [0x20, 0x77, 0x6F, 0x72, 0x6C, 0x64] 100 200"

definition pairSegment :: segment where
  "pairSegment = wordSegment [helloWord, worldWord] 0 200"

definition farSegment :: segment where
  "farSegment = wordSegment [worldWord] 100 8000"

definition helloSegment :: segment where
  "helloSegment = wordSegment [helloWord] 0 100"

definition worldSegment :: segment where
  "worldSegment = wordSegment [worldWord] 100 200"

text \<open>Two words over two seconds: within every budget of the default configuration.\<close>

definition calmSegment :: segment where
  "calmSegment = wordSegment [helloWord, worldWord] 0 2000"

lemmas seg_eval_defs =
  wordSegment_def plainWord_def helloWord_def worldWord_def defaultConfig_def
  needsSplit_def overBudget_def segDuration_def segCps_def charsForCps_def segmentText_def
  concatText_def removeWs_def trim_def trimStart_def trimEnd_def is_ws_def orElse_def


lemma splitPhase_singletons:
  "splitPhase defaultConfig [helloSegment, farSegment] = [helloSegment, farSegment]"
  "splitPhase defaultConfig [helloSegment, worldSegment] = [helloSegment, worldSegment]"
  by (simp_all add: splitPhase_def splitQueue_emit needsSplit_def helloSegment_def farSegment_def worldSegment_def
      wordSegment_def orElse_def)


lemma enforce_far:
  "enforceReadability [helloSegment, farSegment] defaultConfig = [helloSegment, farSegment]"
  unfolding enforceReadability_def splitPhase_singletons
  by (subst mergeLoop_unfold)
    (simp add: helloSegment_def farSegment_def wordSegment_def defaultConfig_def)

lemma enforce_short:
  "enforceReadability [helloSegment, worldSegment] defaultConfig =
     [mergeSegments helloSegment worldSegment]"
  unfolding enforceReadability_def splitPhase_singletons
  by (subst mergeLoop_unfold, subst mergeLoop_unfold)
    (simp add: helloSegment_def worldSegment_def wordSegment_def defaultConfig_def)

lemma enforce_calm: "enforceReadability [calmSegment] defaultConfig = [calmSegment]"
proof -
  have n: "\<not> needsSplit defaultConfig calmSegment"
    by (simp add: calmSegment_def seg_eval_defs)
  have s: "splitPhase defaultConfig [calmSegment] = [calmSegment]"
    by (simp add: splitPhase_def splitQueue_emit [OF n])
  show ?thesis
    unfolding enforceReadability_def s
    by (subst mergeLoop_unfold) simp
qed

subsection \<open>Termination of the split phase\<close>





subsection \<open>The fixed point of the merge loop\<close>

definition mergeBlocked :: "config \<Rightarrow> segment \<Rightarrow> segment \<Rightarrow> bool" where
  "mergeBlocked cfg seg nxt \<longleftrightarrow>
     (segment_on_sentence cfg \<and> seg_sentence_break seg) \<or>
     seg_end nxt - seg_start seg > max_dur_ms cfg"

lemma mergePass_unchanged:
  "snd (mergePass cfg segs) = False \<Longrightarrow>
   fst (mergePass cfg segs) = segs \<and>
   (\<forall>i. Suc i < length segs \<longrightarrow>
        seg_end (segs ! i) - seg_start (segs ! i) < min_dur_ms cfg \<longrightarrow>
        mergeBlocked cfg (segs ! i) (segs ! Suc i))"
proof (induction segs rule: induct_list012)
  case 1
  then show ?case by simp
next
  case (2 x)
  then show ?case by simp
next
  case (3 seg nxt rest)
  let ?can = "seg_end seg - seg_start seg < min_dur_ms cfg \<and>
     \<not> (segment_on_sentence cfg \<and> seg_sentence_break seg) \<and>
     seg_end nxt - seg_start seg \<le> max_dur_ms cfg"
  have nc: "\<not> ?can" using 3(3) by (auto split: prod.splits if_splits)
  then have eq: "mergePass cfg (seg # nxt # rest) =
      (seg # fst (mergePass cfg (nxt # rest)), snd (mergePass cfg (nxt # rest)))"
    by (auto split: prod.splits)
  then have u: "snd (mergePass cfg (nxt # rest)) = False" using 3(3) by simp
  from 3(2) [OF u] have f: "fst (mergePass cfg (nxt # rest)) = nxt # rest"
    and a: "\<forall>i. Suc i < length (nxt # rest) \<longrightarrow>
        seg_end ((nxt # rest) ! i) - seg_start ((nxt # rest) ! i) < min_dur_ms cfg \<longrightarrow>
        mergeBlocked cfg ((nxt # rest) ! i) ((nxt # rest) ! Suc i)" by blast+
  have h: "seg_end seg - seg_start seg < min_dur_ms cfg \<longrightarrow> mergeBlocked cfg seg nxt"
    using nc by (auto simp: mergeBlocked_def)
  show ?case
  proof (intro conjI allI impI)
    show "fst (mergePass cfg (seg # nxt # rest)) = seg # nxt # rest" using eq f by simp
  next
    fix i
    assume i: "Suc i < length (seg # nxt # rest)"
      and d: "seg_end ((seg # nxt # rest) ! i) - seg_start ((seg # nxt # rest) ! i) < min_dur_ms cfg"
    show "mergeBlocked cfg ((seg # nxt # rest) ! i) ((seg # nxt # rest) ! Suc i)"
    proof (cases i)
      case 0
      then show ?thesis using h d by simp
    next
      case (Suc j)
      then show ?thesis using a i d by simp
    qed
  qed
qed

lemma mergeLoop_fixed: "mergePass cfg (mergeLoop cfg segs) = (mergeLoop cfg segs, False)"
proof (induction cfg segs rule: mergeLoop.induct)
  case (1 cfg segs)
  show ?case
  proof (cases "snd (mergePass cfg segs)")
    case True
    then have "mergeLoop cfg segs = mergeLoop cfg (fst (mergePass cfg segs))"
      using mergeLoop_unfold [of cfg segs] by simp
    moreover have "mergePass cfg (mergeLoop cfg (fst (mergePass cfg segs))) =
        (mergeLoop cfg (fst (mergePass cfg segs)), False)"
      using 1 [of "fst (mergePass cfg segs)" "snd (mergePass cfg segs)"] True
      by (cases "mergePass cfg segs") auto
    ultimately show ?thesis by simp
  next
    case False
    then have m: "mergeLoop cfg segs = fst (mergePass cfg segs)"
      using mergeLoop_unfold [of cfg segs] by simp
    from mergePass_unchanged [of cfg segs] False have "fst (mergePass cfg segs) = segs" by simp
    then show ?thesis using m False by (simp add: prod_eq_iff)
  qed
qed

text \<open>
  Claim C5.  The result of \<open>enforceReadability\<close> is a fixed point of the merge pass (a
  further pass changes nothing), and for every adjacent pair whose left segment is shorter
  than \<open>min_dur_ms\<close>, either sentence breaks are preserved and the left segment ends at
  one, or the span from the left segment's start to the right segment's end exceeds
  \<open>max_dur_ms\<close>.
\<close>

theorem merge_fixed_point:
  "mergePass cfg (enforceReadability segs cfg) = (enforceReadability segs cfg, False) \<and>
   (\<forall>i. Suc i < length (enforceReadability segs cfg) \<longrightarrow>
      seg_end (enforceReadability segs cfg ! i) - seg_start (enforceReadability segs cfg ! i)
         < min_dur_ms cfg \<longrightarrow>
      (segment_on_sentence cfg \<and> seg_sentence_break (enforceReadability segs cfg ! i)) \<or>
      seg_end (enforceReadability segs cfg ! Suc i) - seg_start (enforceReadability segs cfg ! i)
         > max_dur_ms cfg)"
proof -
  let ?r = "enforceReadability segs cfg"
  have f: "mergePass cfg ?r = (?r, False)"
    unfolding enforceReadability_def by (rule mergeLoop_fixed)
  then have "snd (mergePass cfg ?r) = False" by simp
  from mergePass_unchanged [OF this] f show ?thesis
    unfolding mergeBlocked_def by blast
qed


theorem merge_fixed_point_witness:
  "enforceReadability [helloSegment, farSegment] defaultConfig = [helloSegment, farSegment] \<and>
   seg_end helloSegment - seg_start helloSegment < min_dur_ms defaultConfig \<and>
   seg_end farSegment - seg_start helloSegment > max_dur_ms defaultConfig"
  using merge_fixed_point [of defaultConfig "[helloSegment, farSegment]"] enforce_far
  by (simp add: helloSegment_def farSegment_def wordSegment_def defaultConfig_def)


subsection \<open>Budgets after the split phase and after the merge phase\<close>

lemma splitQueue_not_needsSplit:
  "\<forall>s\<in>set out. \<not> needsSplit cfg s \<Longrightarrow> \<forall>s\<in>set (splitQueue cfg queue out). \<not> needsSplit cfg s"
proof (induction cfg queue out rule: splitQueue.induct)
  case (1 cfg out)
  then show ?case by simp
next
  case (2 cfg current queue out)
  show ?case
  proof (cases "needsSplit cfg current")
    case True
    show ?thesis unfolding splitQueue_split [OF True] using True 2(3) by (rule 2(1))
  next
    case False
    have "\<forall>s\<in>set (out @ [current]). \<not> needsSplit cfg s" using False 2(3) by simp
    with False show ?thesis unfolding splitQueue_emit [OF False] by (rule 2(2))
  qed
qed

lemma splitPhase_not_needsSplit_aux:
  "\<forall>s\<in>set out. \<not> needsSplit cfg s \<Longrightarrow>
   \<forall>s\<in>set (foldl (\<lambda>out seg. splitQueue cfg [seg] out) out segs). \<not> needsSplit cfg s"
proof (induction segs arbitrary: out)
  case Nil
  then show ?case by simp
next
  case (Cons a segs)
  have "\<forall>s\<in>set (splitQueue cfg [a] out). \<not> needsSplit cfg s"
    using Cons.prems by (rule splitQueue_not_needsSplit)
  from Cons.IH [OF this] show ?case by simp
qed

lemma splitPhase_not_needsSplit: "s \<in> set (splitPhase cfg segs) \<Longrightarrow> \<not> needsSplit cfg s"
  using splitPhase_not_needsSplit_aux [of "[]" cfg segs] by (simp add: splitPhase_def)

text \<open>
  \<open>mergedFrom cfg base s\<close>: the segment \<open>s\<close> is the product of a merge the merge loop can
  perform when it starts from the list \<open>base\<close>: its two parts are segments of \<open>base\<close> or
  products of earlier merges, the left part is shorter than \<open>min_dur_ms\<close>, it is not held
  back by a sentence break, and the span from its start to the end of the right part is at
  most \<open>max_dur_ms\<close>.
\<close>

inductive mergedFrom :: "config \<Rightarrow> segment list \<Rightarrow> segment \<Rightarrow> bool" for cfg base where
  merged:
    "a \<in> set base \<or> mergedFrom cfg base a \<Longrightarrow>
     b \<in> set base \<or> mergedFrom cfg base b \<Longrightarrow>
     seg_end a - seg_start a < min_dur_ms cfg \<Longrightarrow>
     \<not> (segment_on_sentence cfg \<and> seg_sentence_break a) \<Longrightarrow>
     seg_end b - seg_start a \<le> max_dur_ms cfg \<Longrightarrow>
     mergedFrom cfg base (mergeSegments a b)"

lemma mergedFrom_span: "mergedFrom cfg base s \<Longrightarrow> seg_end s - seg_start s \<le> max_dur_ms cfg"
  by (erule mergedFrom.cases) (simp add: mergeSegments_def)

lemma mergePass_from:
  "(\<forall>x\<in>set segs. x \<in> set base \<or> mergedFrom cfg base x) \<Longrightarrow>
   s \<in> set (fst (mergePass cfg segs)) \<Longrightarrow> s \<in> set base \<or> mergedFrom cfg base s"
proof (induction segs arbitrary: s rule: induct_list012)
  case 1
  then show ?case by simp
next
  case (2 x)
  then show ?case by simp
next
  case (3 seg nxt rest)
  have r1: "\<forall>x\<in>set rest. x \<in> set base \<or> mergedFrom cfg base x"
    and r2: "\<forall>x\<in>set (nxt # rest). x \<in> set base \<or> mergedFrom cfg base x"
    and a: "seg \<in> set base \<or> mergedFrom cfg base seg"
    and b: "nxt \<in> set base \<or> mergedFrom cfg base nxt"
    using 3(3) by simp_all
  note ih1 = 3(1) [OF r1] and ih2 = 3(2) [OF r2]
  have m: "mergedFrom cfg base (mergeSegments seg nxt)"
    if "seg_end seg - seg_start seg < min_dur_ms cfg"
      "\<not> (segment_on_sentence cfg \<and> seg_sentence_break seg)"
      "seg_end nxt - seg_start seg \<le> max_dur_ms cfg"
    using a b that by (rule mergedFrom.intros)
  from 3(4) show ?case
    using ih1 [of s] ih2 [of s] m a
    by (auto split: if_splits prod.splits)
qed

lemma mergeLoop_from:
  "(\<forall>x\<in>set segs. x \<in> set base \<or> mergedFrom cfg base x) \<Longrightarrow>
   s \<in> set (mergeLoop cfg segs) \<Longrightarrow> s \<in> set base \<or> mergedFrom cfg base s"
proof (induction cfg segs rule: mergeLoop.induct)
  case (1 cfg segs)
  have p: "\<forall>x\<in>set (fst (mergePass cfg segs)). x \<in> set base \<or> mergedFrom cfg base x"
    using mergePass_from [OF 1(2)] by blast
  show ?case
  proof (cases "snd (mergePass cfg segs)")
    case True
    then have e: "mergeLoop cfg segs = mergeLoop cfg (fst (mergePass cfg segs))"
      using mergeLoop_unfold [of cfg segs] by simp
    show ?thesis
      using 1(1) [of "fst (mergePass cfg segs)" "snd (mergePass cfg segs)"] True 1(3) e p
      by (cases "mergePass cfg segs") auto
  next
    case False
    then have "mergeLoop cfg segs = fst (mergePass cfg segs)"
      using mergeLoop_unfold [of cfg segs] by simp
    then show ?thesis using 1(3) p by auto
  qed
qed

text \<open>
  Claim C2, as amended.  For every segment \<open>s\<close> of the final output: if \<open>s\<close> is a segment
  the split phase emitted and has two or more words, it satisfies the three budgets; \<open>s\<close>
  is either such a segment or the product of a merge of the merge loop; and for the product
  of a merge only the span from start to end is bounded, by \<open>max_dur_ms\<close>: the merge loop
  checks neither the reading speed nor the text length.
\<close>

theorem budget_best_effort:
  "\<forall>s\<in>set (enforceReadability segs cfg).
     (s \<in> set (splitPhase cfg segs) \<longrightarrow>
        2 \<le> length (orElse (seg_tokens s) []) \<longrightarrow>
        segDuration s \<le> max_dur_ms cfg \<and> segCps s \<le> max_cps cfg \<and>
        int (length (segmentText s)) \<le> max_cpl cfg * max_lines cfg) \<and>
     (s \<in> set (splitPhase cfg segs) \<or> mergedFrom cfg (splitPhase cfg segs) s) \<and>
     (mergedFrom cfg (splitPhase cfg segs) s \<longrightarrow> seg_end s - seg_start s \<le> max_dur_ms cfg)"
proof
  fix s
  assume o: "s \<in> set (enforceReadability segs cfg)"
  have a: "segDuration s \<le> max_dur_ms cfg \<and> segCps s \<le> max_cps cfg \<and>
        int (length (segmentText s)) \<le> max_cpl cfg * max_lines cfg"
    if "s \<in> set (splitPhase cfg segs)" "2 \<le> length (orElse (seg_tokens s) [])"
    using splitPhase_not_needsSplit [OF that(1)] that(2)
    by (auto simp: needsSplit_def overBudget_def not_less)
  have b: "s \<in> set (splitPhase cfg segs) \<or> mergedFrom cfg (splitPhase cfg segs) s"
    using o unfolding enforceReadability_def by (intro mergeLoop_from) auto
  show "(s \<in> set (splitPhase cfg segs) \<longrightarrow>
        2 \<le> length (orElse (seg_tokens s) []) \<longrightarrow>
        segDuration s \<le> max_dur_ms cfg \<and> segCps s \<le> max_cps cfg \<and>
        int (length (segmentText s)) \<le> max_cpl cfg * max_lines cfg) \<and>
     (s \<in> set (splitPhase cfg segs) \<or> mergedFrom cfg (splitPhase cfg segs) s) \<and>
     (mergedFrom cfg (splitPhase cfg segs) s \<longrightarrow> seg_end s - seg_start s \<le> max_dur_ms cfg)"
    using a b mergedFrom_span by blast
qed

text \<open>
  The two cases on examples: \<open>calmSegment\<close> has two words, leaves the split phase as it is
  and is within the three budgets; the two short segments \<open>helloSegment\<close> and
  \<open>worldSegment\<close> leave the split phase as they are and are then merged.
\<close>

theorem budget_best_effort_witness:
  "calmSegment \<in> set (enforceReadability [calmSegment] defaultConfig) \<and>
   calmSegment \<in> set (splitPhase defaultConfig [calmSegment]) \<and>
   2 \<le> length (orElse (seg_tokens calmSegment) []) \<and>
   segDuration calmSegment \<le> max_dur_ms defaultConfig \<and>
   segCps calmSegment \<le> max_cps defaultConfig \<and>
   int (length (segmentText calmSegment)) \<le> max_cpl defaultConfig * max_lines defaultConfig \<and>
   mergeSegments helloSegment worldSegment
     \<in> set (enforceReadability [helloSegment, worldSegment] defaultConfig) \<and>
   mergeSegments helloSegment worldSegment
     \<notin> set (splitPhase defaultConfig [helloSegment, worldSegment]) \<and>
   mergedFrom defaultConfig (splitPhase defaultConfig [helloSegment, worldSegment])
     (mergeSegments helloSegment worldSegment) \<and>
   seg_end (mergeSegments helloSegment worldSegment) -
     seg_start (mergeSegments helloSegment worldSegment) \<le> max_dur_ms defaultConfig"
proof -
  have n: "\<not> needsSplit defaultConfig calmSegment"
    by (simp add: calmSegment_def seg_eval_defs)
  have s: "splitPhase defaultConfig [calmSegment] = [calmSegment]"
    by (simp add: splitPhase_def splitQueue_emit [OF n])
  have l: "2 \<le> length (orElse (seg_tokens calmSegment) [])"
    by (simp add: calmSegment_def wordSegment_def orElse_def)
  have d: "mergeSegments helloSegment worldSegment \<noteq> helloSegment"
    "mergeSegments helloSegment worldSegment \<noteq> worldSegment"
    by (simp_all add: mergeSegments_def helloSegment_def worldSegment_def wordSegment_def)
  show ?thesis
    using budget_best_effort [of "[calmSegment]" defaultConfig]
      budget_best_effort [of "[helloSegment, worldSegment]" defaultConfig] l d
    by (simp add: enforce_calm enforce_short s splitPhase_singletons)
qed

text \<open>
  Claim C2 as stated fails: two one-word segments of 100 ms each are merged into a segment
  of two words lasting 200 ms, whose ten characters give 50 characters per second against
  a budget of 17.
\<close>

theorem budget_counterexample:
  "enforceReadability [helloSegment, worldSegment] defaultConfig =
     [mergeSegments helloSegment worldSegment] \<and>
   length (orElse (seg_tokens (mergeSegments helloSegment worldSegment)) []) = 2 \<and>
   segCps (mergeSegments helloSegment worldSegment) = 50 \<and>
   max_cps defaultConfig = 17"
  by (simp add: enforce_short)
    (simp add: mergeSegments_def helloSegment_def worldSegment_def seg_eval_defs)




section \<open>Properties of the segmenter\<close>

subsection \<open>The gap rule\<close>

lemma closeSegment_current: "bs_current (closeSegment b st) = []"
  by (simp add: closeSegment_def Let_def)

lemma bs_append_last:
  "bs_current (bs_append w st) \<noteq> [] \<and> last (bs_current (bs_append w st)) = w \<and>
   (w_end_ms w = Some e \<longrightarrow> bs_lastTokenEnd (bs_append w st) = Some e)"
  by (simp add: bs_append_def)

lemma bs_sentenceCheck_cases:
  "bs_sentenceCheck sen w st = st \<or> bs_sentenceCheck sen w st = closeSegment True st"
  by (simp add: bs_sentenceCheck_def Let_def)

lemma bs_step_last:
  assumes "bs_current (bs_step g sos sen st0 p) \<noteq> []"
  shows "last (bs_current (bs_step g sos sen st0 p)) = p \<and>
         (w_end_ms p = Some e \<longrightarrow> bs_lastTokenEnd (bs_step g sos sen st0 p) = Some e)"
proof -
  let ?a = "bs_append p (bs_gapCheck g p (bs_speakerCheck sos p st0))"
  have "bs_step g sos sen st0 p = ?a \<or> bs_step g sos sen st0 p = closeSegment True ?a"
    unfolding bs_step_def by (rule bs_sentenceCheck_cases)
  then have "bs_step g sos sen st0 p = ?a" using assms closeSegment_current by auto
  then show ?thesis using bs_append_last [of p _ e] by simp
qed

lemma bs_reach_last:
  assumes "bs_current (foldl (bs_step g sos sen) bs_init pre) \<noteq> []"
  shows "pre \<noteq> [] \<and> last (bs_current (foldl (bs_step g sos sen) bs_init pre)) = last pre \<and>
         (w_end_ms (last pre) = Some e \<longrightarrow>
            bs_lastTokenEnd (foldl (bs_step g sos sen) bs_init pre) = Some e)"
proof (cases pre rule: rev_cases)
  case Nil
  then show ?thesis using assms by (simp add: bs_init_def)
next
  case (snoc ys p)
  then show ?thesis using assms bs_step_last [of g sos sen "foldl (bs_step g sos sen) bs_init ys" p e]
    by simp
qed

text \<open>The safety of a boundary in the words of the claim: the previous word ends in white
  space or in a sentence or minor-break mark, or the current word begins with a space.\<close>

definition claimedSafe :: "jstring \<Rightarrow> jstring \<Rightarrow> bool" where
  "claimedSafe prevText nextText \<longleftrightarrow>
     (prevText \<noteq> [] \<and>
        (is_ws (last prevText) \<or> lastChar prevText \<in> SENTENCE_ENDERS \<or>
         lastChar prevText \<in> MINOR_BREAKERS)) \<or>
     startsWithSpace nextText"

text \<open>
  Claim C8, as amended.  Let \<open>st\<close> be the state of the segmenter after the words \<open>pre\<close>,
  with a non-empty open segment.  If the gap threshold is positive, the gap between the end
  of the previous word and the start of the current word \<open>w\<close> exceeds it, and the boundary
  is safe as \<open>safeBoundary\<close> decides it (the text of \<open>w\<close> is empty or begins with a
  space, or the previous text ends with the space U+0020 or a sentence or minor-break mark),
  then the checks before the append close the open segment, and the segment open after the
  append holds \<open>w\<close> alone.
\<close>

theorem gap_closes_segment:
  assumes "st = foldl (bs_step g sos sen) bs_init pre"
    and "bs_current st \<noteq> []"
    and "w_end_ms (last pre) = Some e" and "w_start_ms w = Some s"
    and "0 < g" and "g < s - e"
    and "safeBoundary (w_text (last pre)) (w_text w)"
  shows "bs_gapCheck g w (bs_speakerCheck sos w st) = closeSegment False st \<and>
         bs_current (closeSegment False st) = [] \<and>
         bs_current (bs_append w (bs_gapCheck g w (bs_speakerCheck sos w st))) = [w]"
proof -
  from bs_reach_last [of g sos sen pre e] assms(1,2,3)
  have l: "last (bs_current st) = last pre" and t: "bs_lastTokenEnd st = Some e" by simp_all
  have c: "bs_gapCheck g w (closeSegment False st) = closeSegment False st"
    by (simp add: bs_gapCheck_def closeSegment_current)
  have d: "bs_gapCheck g w st = closeSegment False st"
    using assms(2,4,5,6,7) l t by (simp add: bs_gapCheck_def Let_def)
  have "bs_speakerCheck sos w st = st \<or> bs_speakerCheck sos w st = closeSegment False st"
    by (simp add: bs_speakerCheck_def)
  then have g: "bs_gapCheck g w (bs_speakerCheck sos w st) = closeSegment False st"
    using c d by auto
  show ?thesis unfolding g by (simp add: closeSegment_current bs_append_def)
qed

text \<open>The words \<open>"a,"\<close> and \<open>"b"\<close>, 1900 ms apart.\<close>

definition commaWord :: word where
  "commaWord = plainWord [0x61, 0x2C] 0 100"

definition lateWord :: word where
  "lateWord = plainWord [0x62] 2000 2300"

lemmas bs_eval_defs =
  bs_step_def bs_speakerCheck_def bs_gapCheck_def bs_append_def bs_sentenceCheck_def
  closeSegment_def bs_init_def buildSegments_def safeBoundary_def concatText_def
  isSentenceBreak_def endsWithSentenceBreak_def startsWithSpace_def lastChar_def
  SENTENCE_ENDERS_def MINOR_BREAKERS_def trim_def trimStart_def trimEnd_def is_ws_def
  orElse_def orNull_def plainWord_def Let_def

lemma commaWord_state:
  "bs_current (foldl (bs_step g False False) bs_init [commaWord]) = [commaWord]"
  by (simp add: commaWord_def bs_eval_defs)

theorem gap_closes_segment_witness:
  "bs_current (foldl (bs_step 1200 False False) bs_init [commaWord]) \<noteq> [] \<and>
   w_end_ms (last [commaWord]) = Some 100 \<and> w_start_ms lateWord = Some 2000 \<and>
   (0::real) < 1200 \<and> (1200::real) < 2000 - 100 \<and>
   safeBoundary (w_text (last [commaWord])) (w_text lateWord) \<and>
   bs_current (bs_append lateWord (bs_gapCheck 1200 lateWord
      (bs_speakerCheck False lateWord (foldl (bs_step 1200 False False) bs_init [commaWord]))))
     = [lateWord]"
proof -
  have a: "bs_current (foldl (bs_step 1200 False False) bs_init [commaWord]) \<noteq> []"
    using commaWord_state [of 1200] by simp
  have b: "w_end_ms (last [commaWord]) = Some 100" "w_start_ms lateWord = Some 2000"
    by (simp_all add: commaWord_def lateWord_def plainWord_def)
  have c: "safeBoundary (w_text (last [commaWord])) (w_text lateWord)"
    by (simp add: commaWord_def lateWord_def plainWord_def safeBoundary_def lastChar_def
        startsWithSpace_def MINOR_BREAKERS_def)
  from gap_closes_segment [OF refl a b(1) b(2) _ _ c]
  show ?thesis using a b c by (simp add: closeSegment_current bs_append_def)
qed

text \<open>
  Claim C8 as stated fails for a gap threshold of 0: the gap of 1900 ms exceeds it and the
  previous word ends with a comma, but the guard \<open>gapThreshold > 0\<close> keeps the segment
  open, and both words end up in one segment.
\<close>

theorem gap_rule_counterexample:
  "bs_current (foldl (bs_step 0 False False) bs_init [commaWord]) \<noteq> [] \<and>
   w_end_ms (last [commaWord]) = Some 100 \<and> w_start_ms lateWord = Some 2000 \<and>
   (2000::real) - 100 > 0 \<and>
   claimedSafe (w_text (last [commaWord])) (w_text lateWord) \<and>
   bs_current (bs_gapCheck 0 lateWord
      (bs_speakerCheck False lateWord (foldl (bs_step 0 False False) bs_init [commaWord])))
     = [commaWord] \<and>
   map seg_tokens (buildSegments [commaWord, lateWord] 0 False False) = [Some [commaWord, lateWord]]"
  by (simp add: commaWord_def lateWord_def claimedSafe_def bs_eval_defs)



section \<open>Time order of the emitted segments\<close>

text \<open>
  \<open>timedWords\<close>: every word has a start, its end, where it has one, is not before its
  start, and the starts do not decrease along the list.  \<open>segOk\<close>: a segment has words,
  starts where its first word starts and ends before none of its words starts.  \<open>timeOk\<close>
  is the property of the claim.
\<close>

definition startOf :: "word \<Rightarrow> real" where
  "startOf w = orElse (w_start_ms w) 0"

definition wordOk :: "word \<Rightarrow> bool" where
  "wordOk w =
     (case w_start_ms w of
        None \<Rightarrow> False
      | Some s \<Rightarrow> (case w_end_ms w of None \<Rightarrow> True | Some e \<Rightarrow> s \<le> e))"

definition timedWords :: "word list \<Rightarrow> bool" where
  "timedWords ws \<longleftrightarrow> list_all wordOk ws \<and> sorted (map startOf ws)"

definition segWords :: "segment \<Rightarrow> word list" where
  "segWords seg = orElse (seg_tokens seg) []"

definition segOk :: "segment \<Rightarrow> bool" where
  "segOk seg \<longleftrightarrow>
     segWords seg \<noteq> [] \<and> seg_start seg = startOf (hd (segWords seg)) \<and>
     list_all (\<lambda>w. startOf w \<le> seg_end seg) (segWords seg)"

definition goodSegs :: "segment list \<Rightarrow> bool" where
  "goodSegs segs \<longleftrightarrow> list_all segOk segs \<and> timedWords (concat (map segWords segs))"

definition timeOk :: "segment list \<Rightarrow> bool" where
  "timeOk segs \<longleftrightarrow>
     sorted (map seg_start segs) \<and> list_all (\<lambda>seg. seg_start seg \<le> seg_end seg) segs"

lemma timedWords_Nil: "timedWords []"
  by (simp add: timedWords_def)

lemma timedWords_append:
  "timedWords (a @ b) \<longleftrightarrow>
     timedWords a \<and> timedWords b \<and> (\<forall>x\<in>set a. \<forall>y\<in>set b. startOf x \<le> startOf y)"
  by (auto simp: timedWords_def sorted_append)

lemma timedWords_Cons:
  "timedWords (w # ws) \<longleftrightarrow> wordOk w \<and> timedWords ws \<and> (\<forall>y\<in>set ws. startOf w \<le> startOf y)"
  by (auto simp: timedWords_def)

lemma wordOk_start: "wordOk w \<Longrightarrow> w_start_ms w = Some (startOf w)"
  by (auto simp: wordOk_def startOf_def orElse_def split: option.splits)

lemma wordOk_end: "wordOk w \<Longrightarrow> startOf w \<le> d \<Longrightarrow> startOf w \<le> orElse (w_end_ms w) d"
  by (auto simp: wordOk_def startOf_def orElse_def split: option.splits)

lemma segOk_span: "segOk seg \<Longrightarrow> seg_start seg \<le> seg_end seg"
proof -
  assume a: "segOk seg"
  then have "hd (segWords seg) \<in> set (segWords seg)" by (simp add: segOk_def)
  then show ?thesis using a by (auto simp: segOk_def list_all_iff)
qed

text \<open>In a timed list no word starts after the last one, and the last one is well-formed.\<close>

lemma timedWords_last:
  assumes "timedWords xs" "x \<in> set xs"
  shows "startOf x \<le> startOf (last xs) \<and> wordOk (last xs)"
proof (cases xs rule: rev_cases)
  case Nil
  then show ?thesis using assms by simp
next
  case (snoc ys l)
  then show ?thesis using assms by (auto simp: timedWords_append timedWords_Cons)
qed

lemma timedWords_end_last:
  assumes "timedWords xs" "x \<in> set xs" "\<forall>w\<in>set xs. startOf w \<le> d"
  shows "startOf x \<le> orElse (w_end_ms (last xs)) d"
proof -
  from timedWords_last [OF assms(1,2)]
  have a: "startOf x \<le> startOf (last xs)" and b: "wordOk (last xs)" by simp_all
  have "last xs \<in> set xs" using assms(2) by (cases xs) auto
  then have "startOf (last xs) \<le> d" using assms(3) by blast
  from wordOk_end [OF b this] a show ?thesis by linarith
qed

lemma fold_max_ge: "a \<le> fold max xs (a::real) \<and> (\<forall>x\<in>set xs. x \<le> fold max xs a)"
proof (induction xs arbitrary: a)
  case Nil
  then show ?case by simp
next
  case (Cons x xs)
  from Cons [of "max x a"] show ?case by auto
qed

lemma mathMax_ge: "x \<in> set xs \<Longrightarrow> x \<le> mathMax xs"
  using fold_max_ge by (cases xs) auto

text \<open>The invariant of the segmenter loop: \<open>rest\<close> are the words still to come.\<close>

definition bs_good :: "bs_state \<Rightarrow> word list \<Rightarrow> bool" where
  "bs_good st rest \<longleftrightarrow>
     list_all segOk (bs_segments st) \<and>
     timedWords (concat (map segWords (bs_segments st)) @ bs_current st @ rest) \<and>
     (bs_current st \<noteq> [] \<longrightarrow> bs_currentStart st = w_start_ms (hd (bs_current st)))"

lemma closeSegment_good:
  assumes "bs_good st rest"
  shows "bs_good (closeSegment b st) rest"
proof (cases "bs_current st = []")
  case True
  then show ?thesis using assms by (simp add: closeSegment_def)
next
  case False
  let ?cur = "bs_current st"
  let ?start = "orElse (w_start_ms (hd ?cur)) 0"
  have tw: "timedWords ?cur" using assms by (simp add: bs_good_def timedWords_append)
  have cs: "?start = startOf (hd ?cur)" by (simp add: startOf_def)
  let ?cand = "\<lambda>t. orElse (w_end_ms t) (orElse (w_start_ms t) ?start)"
  have e: "startOf w \<le> mathMax (map ?cand ?cur)" if "w \<in> set ?cur" for w
  proof -
    have ok: "wordOk w" using tw that by (simp add: timedWords_def list_all_iff)
    have "orElse (w_start_ms w) ?start = startOf w"
      using wordOk_start [OF ok] by (simp add: orElse_def)
    then have "startOf w \<le> ?cand w" using wordOk_end [OF ok, of "startOf w"] by simp
    moreover have "?cand w \<le> mathMax (map ?cand ?cur)"
      using that by (intro mathMax_ge) simp
    ultimately show ?thesis by linarith
  qed
  show ?thesis
  proof (cases "concatText ?cur = []")
    case True
    then show ?thesis using assms False
      by (auto simp: closeSegment_def bs_good_def timedWords_append)
  next
    case nonempty: False
    have "segOk \<lparr>seg_start = ?start, seg_end = mathMax (map ?cand ?cur),
        seg_speaker = orNull (firstNonEmpty (map w_speaker ?cur)),
        seg_tokens = Some ?cur, seg_text = None, seg_sentence_break = b,
        seg_prefix_ellipsis = False, seg_suffix_ellipsis = False\<rparr>"
      using False cs e by (simp add: segOk_def segWords_def orElse_def list_all_iff)
    then show ?thesis using assms False nonempty
      by (simp add: closeSegment_def bs_good_def Let_def segWords_def orElse_def)
  qed
qed

lemma bs_speakerCheck_good: "bs_good st rest \<Longrightarrow> bs_good (bs_speakerCheck sos w st) rest"
  by (simp add: bs_speakerCheck_def closeSegment_good)

lemma bs_gapCheck_good: "bs_good st rest \<Longrightarrow> bs_good (bs_gapCheck g w st) rest"
  by (simp add: bs_gapCheck_def closeSegment_good Let_def split: option.splits)

lemma bs_sentenceCheck_good: "bs_good st rest \<Longrightarrow> bs_good (bs_sentenceCheck sen w st) rest"
  using bs_sentenceCheck_cases [of sen w st] closeSegment_good [of st rest True] by auto

lemma bs_append_good:
  assumes "bs_good st (w # rest)"
  shows "bs_good (bs_append w st) rest"
proof -
  have "wordOk w" using assms by (simp add: bs_good_def timedWords_append timedWords_Cons)
  then have "w_start_ms w \<noteq> None" by (simp add: wordOk_start)
  then show ?thesis using assms by (auto simp: bs_good_def bs_append_def)
qed

lemma bs_step_good: "bs_good st (w # rest) \<Longrightarrow> bs_good (bs_step g sos sen st w) rest"
  unfolding bs_step_def
  by (intro bs_sentenceCheck_good bs_append_good bs_gapCheck_good bs_speakerCheck_good)

lemma bs_foldl_good: "bs_good st ws \<Longrightarrow> bs_good (foldl (bs_step g sos sen) st ws) []"
  by (induction ws arbitrary: st) (simp_all add: bs_step_good)

lemma buildSegments_good:
  assumes "timedWords ws"
  shows "goodSegs (buildSegments ws g sos sen)"
proof -
  have "bs_good bs_init ws" using assms by (simp add: bs_good_def bs_init_def)
  then have "bs_good (closeSegment False (foldl (bs_step g sos sen) bs_init ws)) []"
    by (intro closeSegment_good bs_foldl_good)
  then show ?thesis
    by (simp add: bs_good_def goodSegs_def buildSegments_def closeSegment_current)
qed


text \<open>The split phase keeps the words and their order; each child starts at its first word
  and ends before none of its words starts.\<close>

lemma goodSegs_append:
  "goodSegs (a @ b) \<longleftrightarrow>
     list_all segOk a \<and> list_all segOk b \<and>
     timedWords (concat (map segWords a) @ concat (map segWords b))"
  by (auto simp: goodSegs_def)

lemma split_children_ok:
  assumes "needsSplit cfg cur" "timedWords (segWords cur)" "segOk cur"
  shows "segOk (splitLeft cfg cur) \<and> segOk (splitRight cfg cur) \<and>
         segWords (splitLeft cfg cur) @ segWords (splitRight cfg cur) = segWords cur"
proof -
  let ?ts = "segWords cur"
  let ?i = "findSplitIndex ?ts"
  have n: "2 \<le> length ?ts" using assms(1) by (simp add: needsSplit_def segWords_def)
  from findSplitIndex_bounds [OF n] have i: "0 < ?i" "?i < length ?ts" by simp_all
  have l: "take ?i ?ts \<noteq> []" and r: "drop ?i ?ts \<noteq> []" using i by auto
  have "timedWords (take ?i ?ts @ drop ?i ?ts)" using assms(2) by simp
  then have tl: "timedWords (take ?i ?ts)" and tr: "timedWords (drop ?i ?ts)"
    unfolding timedWords_append by simp_all
  have ol: "wordOk (hd (take ?i ?ts))" using tl l
    by (cases "take ?i ?ts") (auto simp: timedWords_Cons)
  have or: "wordOk (hd (drop ?i ?ts))" using tr r
    by (cases "drop ?i ?ts") (auto simp: timedWords_Cons)
  have en: "\<forall>w\<in>set ?ts. startOf w \<le> seg_end cur"
    using assms(3) by (simp add: segOk_def list_all_iff)
  have el: "\<forall>w\<in>set (take ?i ?ts). startOf w \<le> seg_end cur"
    using en by (meson in_set_takeD)
  have er: "\<forall>w\<in>set (drop ?i ?ts). startOf w \<le> seg_end cur"
    using en by (meson in_set_dropD)
  have sl: "segWords (splitLeft cfg cur) = take ?i ?ts"
    by (simp add: splitLeft_def segWords_def Let_def orElse_def)
  have sr: "segWords (splitRight cfg cur) = drop ?i ?ts"
    by (simp add: splitRight_def segWords_def Let_def orElse_def)
  have a: "seg_start (splitLeft cfg cur) = startOf (hd (take ?i ?ts))"
    using wordOk_start [OF ol] by (simp add: splitLeft_def segWords_def Let_def orElse_def)
  have b: "seg_end (splitLeft cfg cur) = orElse (w_end_ms (last (take ?i ?ts))) (seg_end cur)"
    by (simp add: splitLeft_def segWords_def Let_def)
  have c: "seg_start (splitRight cfg cur) = startOf (hd (drop ?i ?ts))"
    using wordOk_start [OF or] by (simp add: splitRight_def segWords_def Let_def orElse_def)
  have d: "seg_end (splitRight cfg cur) = orElse (w_end_ms (last (drop ?i ?ts))) (seg_end cur)"
    by (simp add: splitRight_def segWords_def Let_def)
  have fl: "\<forall>w\<in>set (take ?i ?ts). startOf w \<le> orElse (w_end_ms (last (take ?i ?ts))) (seg_end cur)"
    using timedWords_end_last [OF tl _ el] by blast
  have fr: "\<forall>w\<in>set (drop ?i ?ts). startOf w \<le> orElse (w_end_ms (last (drop ?i ?ts))) (seg_end cur)"
    using timedWords_end_last [OF tr _ er] by blast
  show ?thesis
    unfolding segOk_def sl sr a b c d list_all_iff
    using l r fl fr by simp
qed

lemma splitQueue_good:
  "goodSegs (out @ queue @ tail) \<Longrightarrow> goodSegs (splitQueue cfg queue out @ tail)"
proof (induction cfg queue out rule: splitQueue.induct)
  case (1 cfg out)
  then show ?case by simp
next
  case (2 cfg current queue out)
  show ?case
  proof (cases "needsSplit cfg current")
    case True
    have tw: "timedWords (segWords current)"
      using 2(3) by (simp add: goodSegs_def timedWords_append)
    have so: "segOk current" using 2(3) by (simp add: goodSegs_def)
    note ch = split_children_ok [OF True tw so]
    have "goodSegs (out @ (splitLeft cfg current # splitRight cfg current # queue) @ tail)"
    proof -
      have "segWords (splitLeft cfg current) @ segWords (splitRight cfg current) @ X =
          segWords current @ X" for X
        using ch by (metis append_assoc)
      then have e: "concat (map segWords (out @ (splitLeft cfg current # splitRight cfg current # queue) @ tail))
          = concat (map segWords (out @ (current # queue) @ tail))"
        by simp
      have "list_all segOk (out @ (splitLeft cfg current # splitRight cfg current # queue) @ tail)"
        using 2(3) ch by (simp add: goodSegs_def)
      moreover have "timedWords (concat (map segWords (out @ (current # queue) @ tail)))"
        using 2(3) by (simp add: goodSegs_def)
      ultimately show ?thesis unfolding goodSegs_def e by simp
    qed
    from 2(1) [OF True this] show ?thesis unfolding splitQueue_split [OF True] .
  next
    case False
    have "goodSegs ((out @ [current]) @ queue @ tail)" using 2(3) by simp
    from 2(2) [OF False this] show ?thesis unfolding splitQueue_emit [OF False] .
  qed
qed

lemma splitPhase_good_aux:
  "goodSegs (out @ segs) \<Longrightarrow> goodSegs (foldl (\<lambda>out seg. splitQueue cfg [seg] out) out segs)"
proof (induction segs arbitrary: out)
  case Nil
  then show ?case by simp
next
  case (Cons a segs)
  have "goodSegs (out @ [a] @ segs)" using Cons.prems by simp
  then have "goodSegs (splitQueue cfg [a] out @ segs)" by (rule splitQueue_good)
  from Cons.IH [OF this] show ?case by simp
qed

lemma splitPhase_good: "goodSegs segs \<Longrightarrow> goodSegs (splitPhase cfg segs)"
  using splitPhase_good_aux [of "[]" segs cfg] by (simp add: splitPhase_def)

lemma goodSegs_timeOk: "goodSegs segs \<Longrightarrow> timeOk segs"
proof (induction segs)
  case Nil
  then show ?case by (simp add: timeOk_def)
next
  case (Cons a segs)
  have g: "goodSegs segs" using Cons.prems by (simp add: goodSegs_def timedWords_append)
  have ok: "list_all segOk (a # segs)" using Cons.prems by (simp add: goodSegs_def)
  have sp: "seg_start a \<le> seg_end a" using ok by (simp add: segOk_span)
  have "seg_start a \<le> seg_start b" if "b \<in> set segs" for b
  proof -
    have bo: "segOk b" using ok that by (simp add: list_all_iff)
    have "hd (segWords a) \<in> set (segWords a)" "hd (segWords b) \<in> set (segWords b)"
      using ok bo by (simp_all add: segOk_def)
    moreover have "\<forall>x\<in>set (segWords a). \<forall>y\<in>set (concat (map segWords segs)). startOf x \<le> startOf y"
      using Cons.prems by (simp add: goodSegs_def timedWords_append)
    ultimately have "startOf (hd (segWords a)) \<le> startOf (hd (segWords b))"
      using that by auto
    then show ?thesis using ok bo by (simp add: segOk_def)
  qed
  then show ?case using Cons.IH [OF g] sp by (auto simp: timeOk_def)
qed

text \<open>A merge pass keeps the starts of its input, in order.\<close>

lemma mergePass_cases:
  "mergePass cfg (seg # nxt # rest) =
     (seg # fst (mergePass cfg (nxt # rest)), snd (mergePass cfg (nxt # rest))) \<or>
   (mergePass cfg (seg # nxt # rest) = (mergeSegments seg nxt # fst (mergePass cfg rest), True) \<and>
    seg_end nxt - seg_start seg \<le> max_dur_ms cfg)"
  by (auto split: prod.splits)

lemma mergePass_starts:
  "s \<in> set (fst (mergePass cfg segs)) \<Longrightarrow> seg_start s \<in> seg_start ` set segs"
proof (induction segs arbitrary: s rule: induct_list012)
  case 1
  then show ?case by simp
next
  case (2 x)
  then show ?case by simp
next
  case (3 seg nxt rest)
  from mergePass_cases [of cfg seg nxt rest] show ?case
  proof
    assume "mergePass cfg (seg # nxt # rest) =
      (seg # fst (mergePass cfg (nxt # rest)), snd (mergePass cfg (nxt # rest)))"
    then have "s = seg \<or> s \<in> set (fst (mergePass cfg (nxt # rest)))" using 3(3) by simp
    then show ?thesis using 3(2) [of s] by auto
  next
    assume "mergePass cfg (seg # nxt # rest) = (mergeSegments seg nxt # fst (mergePass cfg rest), True) \<and>
      seg_end nxt - seg_start seg \<le> max_dur_ms cfg"
    then have "s = mergeSegments seg nxt \<or> s \<in> set (fst (mergePass cfg rest))" using 3(3) by simp
    then show ?thesis using 3(1) [of s] by (auto simp: mergeSegments_def)
  qed
qed

lemma timeOk_Cons:
  "timeOk (a # segs) \<longleftrightarrow>
     seg_start a \<le> seg_end a \<and> timeOk segs \<and> (\<forall>b\<in>set segs. seg_start a \<le> seg_start b)"
  by (auto simp: timeOk_def)

lemma mergePass_timeOk: "timeOk segs \<Longrightarrow> timeOk (fst (mergePass cfg segs))"
proof (induction segs rule: induct_list012)
  case 1
  then show ?case by simp
next
  case (2 x)
  then show ?case by simp
next
  case (3 seg nxt rest)
  have t1: "timeOk (nxt # rest)" and t2: "timeOk rest" using 3(3) by (simp_all add: timeOk_Cons)
  note ih1 = 3(1) [OF t2] and ih2 = 3(2) [OF t1]
  have lo: "\<forall>c\<in>set (nxt # rest). seg_start seg \<le> seg_start c"
    using 3(3) by (simp add: timeOk_Cons)
  have s1: "\<forall>b\<in>set (fst (mergePass cfg (nxt # rest))). seg_start seg \<le> seg_start b"
  proof
    fix b assume "b \<in> set (fst (mergePass cfg (nxt # rest)))"
    from mergePass_starts [OF this] obtain c where "c \<in> set (nxt # rest)" "seg_start b = seg_start c"
      by auto
    then show "seg_start seg \<le> seg_start b" using lo by auto
  qed
  have s2: "\<forall>b\<in>set (fst (mergePass cfg rest)). seg_start seg \<le> seg_start b"
  proof
    fix b assume "b \<in> set (fst (mergePass cfg rest))"
    from mergePass_starts [OF this] obtain c where "c \<in> set rest" "seg_start b = seg_start c"
      by auto
    then show "seg_start seg \<le> seg_start b" using lo by auto
  qed
  have keep: "timeOk (seg # fst (mergePass cfg (nxt # rest)))"
    using ih2 s1 3(3) by (simp add: timeOk_Cons)
  have mrg: "timeOk (mergeSegments seg nxt # fst (mergePass cfg rest))"
    using ih1 s2 3(3) by (auto simp: timeOk_Cons mergeSegments_def)
  from mergePass_cases [of cfg seg nxt rest] show ?case
  proof
    assume e: "mergePass cfg (seg # nxt # rest) =
      (seg # fst (mergePass cfg (nxt # rest)), snd (mergePass cfg (nxt # rest)))"
    show ?thesis unfolding e fst_conv by (rule keep)
  next
    assume "mergePass cfg (seg # nxt # rest) = (mergeSegments seg nxt # fst (mergePass cfg rest), True) \<and>
      seg_end nxt - seg_start seg \<le> max_dur_ms cfg"
    then have e: "mergePass cfg (seg # nxt # rest) =
      (mergeSegments seg nxt # fst (mergePass cfg rest), True)" ..
    show ?thesis unfolding e fst_conv by (rule mrg)
  qed
qed

lemma mergeLoop_timeOk: "timeOk segs \<Longrightarrow> timeOk (mergeLoop cfg segs)"
proof (induction cfg segs rule: mergeLoop.induct)
  case (1 cfg segs)
  have t: "timeOk (fst (mergePass cfg segs))" using 1(2) by (rule mergePass_timeOk)
  show ?case
  proof (cases "snd (mergePass cfg segs)")
    case True
    have "timeOk (mergeLoop cfg (fst (mergePass cfg segs)))"
      using 1(1) [of "fst (mergePass cfg segs)" "snd (mergePass cfg segs)"] True t
      by (cases "mergePass cfg segs") auto
    then show ?thesis using True mergeLoop_unfold [of cfg segs] by simp
  next
    case False
    then show ?thesis using t mergeLoop_unfold [of cfg segs] by simp
  qed
qed

lemma enforceReadability_timeOk:
  "timedWords ws \<Longrightarrow> timeOk (enforceReadability (buildSegments ws g sos sen) cfg)"
  unfolding enforceReadability_def
  by (intro mergeLoop_timeOk goodSegs_timeOk splitPhase_good buildSegments_good)


text \<open>
  The same for tokens: \<open>timedTokens\<close> asks every token with a non-empty text for a start,
  for an end that, where there is one, is not before the start, and for starts that do not
  decrease.  \<open>tw_good\<close> is the invariant of the assembler loop, \<open>rest\<close> being the tokens
  still to come.
\<close>

definition tokStart :: "token \<Rightarrow> real" where
  "tokStart t = orElse (tk_start_ms t) 0"

definition tokenOk :: "token \<Rightarrow> bool" where
  "tokenOk t =
     (case tk_start_ms t of
        None \<Rightarrow> False
      | Some s \<Rightarrow> (case tk_end_ms t of None \<Rightarrow> True | Some e \<Rightarrow> s \<le> e))"

definition spoken :: "token list \<Rightarrow> token list" where
  "spoken ts = filter (\<lambda>t. tk_text t \<noteq> []) ts"

definition timedTokens :: "token list \<Rightarrow> bool" where
  "timedTokens ts \<longleftrightarrow> list_all tokenOk (spoken ts) \<and> sorted (map tokStart (spoken ts))"

definition tw_pendStart :: "tw_state \<Rightarrow> real list" where
  "tw_pendStart st = (case tw_currentStart st of Some cs \<Rightarrow> [cs] | None \<Rightarrow> [])"

definition tw_pendOk :: "tw_state \<Rightarrow> bool" where
  "tw_pendOk st =
     (case tw_currentStart st of
        None \<Rightarrow> False
      | Some cs \<Rightarrow> (case tw_currentEnd st of None \<Rightarrow> True | Some ce \<Rightarrow> cs \<le> ce))"

definition tw_good :: "tw_state \<Rightarrow> token list \<Rightarrow> bool" where
  "tw_good st rest \<longleftrightarrow>
     list_all wordOk (tw_words st) \<and> list_all tokenOk (spoken rest) \<and>
     sorted (map startOf (tw_words st) @ tw_pendStart st @ map tokStart (spoken rest)) \<and>
     (tw_currentTokens st \<noteq> [] \<longrightarrow> tw_pendOk st) \<and>
     (tw_currentTokens st = [] \<longrightarrow> tw_currentStart st = None \<and> tw_currentEnd st = None)"

lemma flush_good: "tw_good st rest \<Longrightarrow> tw_good (flush st) rest"
  by (auto simp: tw_good_def flush_def Let_def tw_pendStart_def tw_pendOk_def wordOk_def
      startOf_def orElse_def split: option.splits)

lemma tokenOk_times:
  "tokenOk t \<Longrightarrow>
   tk_start_ms t = Some (tokStart t) \<and> (\<forall>e. tk_end_ms t = Some e \<longrightarrow> tokStart t \<le> e)"
  by (auto simp: tokenOk_def tokStart_def orElse_def split: option.splits)

lemma add_good:
  assumes "tw_good st (tok # rest)" "tk_text tok \<noteq> []"
  shows "tw_good (addToCurrent tok c p st) rest"
proof -
  have sp: "spoken (tok # rest) = tok # spoken rest" using assms(2) by (simp add: spoken_def)
  have "tokenOk tok" using assms(1) by (simp add: tw_good_def sp)
  from tokenOk_times [OF this]
  have t: "tk_start_ms tok = Some (tokStart tok)"
    "\<forall>e. tk_end_ms tok = Some e \<longrightarrow> tokStart tok \<le> e" by simp_all
  show ?thesis
  proof (cases "tw_currentTokens st = []")
    case True
    then show ?thesis using assms(1) t
      by (auto simp: tw_good_def sp addToCurrent_def tw_pendStart_def tw_pendOk_def
          split: option.splits)
  next
    case False
    then obtain cs where c: "tw_currentStart st = Some cs"
      "\<forall>ce. tw_currentEnd st = Some ce \<longrightarrow> cs \<le> ce"
      using assms(1) by (auto simp: tw_good_def tw_pendOk_def split: option.splits)
    have "cs \<le> tokStart tok"
      using assms(1) c by (auto simp: tw_good_def sp tw_pendStart_def sorted_append)
    then show ?thesis using assms(1) c t False
      by (auto simp: tw_good_def sp addToCurrent_def tw_pendStart_def tw_pendOk_def
          sorted_append split: option.splits)
  qed
qed

lemma step_good:
  assumes "tw_good st (tok # rest)"
  shows "tw_good (tw_step st tok) rest"
proof (cases "tk_text tok = []")
  case True
  then show ?thesis using assms by (simp add: tw_step_def tw_good_def spoken_def)
next
  case False
  from tw_step_shape [OF False, of st] obtain s where
    s: "s = st \<or> s = flush st" and
    r: "tw_step st tok = addToCurrent tok (trimStart (tk_text tok)) (is_ws (hd (tk_text tok))) s \<or>
        tw_step st tok = flush (addToCurrent tok (trimStart (tk_text tok)) (is_ws (hd (tk_text tok))) s)"
    by blast
  have "tw_good s (tok # rest)" using s assms flush_good by blast
  then have "tw_good (addToCurrent tok (trimStart (tk_text tok)) (is_ws (hd (tk_text tok))) s) rest"
    using False by (rule add_good)
  then show ?thesis using r flush_good by auto
qed

lemma foldl_good: "tw_good st ts \<Longrightarrow> tw_good (foldl tw_step st ts) []"
  by (induction ts arbitrary: st) (simp_all add: step_good)

lemma tokensToWords_timed:
  assumes "timedTokens ts"
  shows "timedWords (tokensToWords ts)"
proof -
  let ?f = "flush (foldl tw_step tw_init ts)"
  have "tw_good tw_init ts"
    using assms by (simp add: tw_good_def tw_init_def timedTokens_def tw_pendStart_def)
  then have "tw_good ?f []" by (intro flush_good foldl_good)
  moreover have "tw_currentTokens ?f = []" by (rule flush_current)
  ultimately have t: "timedWords (tw_words ?f)"
    by (auto simp: tw_good_def timedWords_def tw_pendStart_def spoken_def)
  show ?thesis
  proof (cases "tw_words ?f")
    case Nil
    then show ?thesis by (simp add: tokensToWords_def timedWords_Nil)
  next
    case (Cons w0 rest)
    have "timedWords (w0\<lparr>w_text := trimStart (w_text w0)\<rparr> # rest)"
      using t Cons by (simp add: timedWords_Cons wordOk_def startOf_def split: option.splits)
    then show ?thesis using t Cons by (simp add: tokensToWords_def)
  qed
qed

text \<open>
  Claim C7, as amended.  When the words given to \<open>buildSegments\<close> are \<open>timedWords\<close>, and
  likewise when the tokens given to \<open>tokensToSubtitleSegments\<close> are \<open>timedTokens\<close> (every
  token with a text has a start, no end that is present lies before it, and the starts do
  not decrease; an end may be missing), the emitted segments have non-decreasing starts and
  no segment ends before it starts, for every configuration.
\<close>

theorem segments_monotone:
  "(timedWords ws \<longrightarrow>
      sorted (map seg_start (enforceReadability (buildSegments ws g sos sen) cfg)) \<and>
      list_all (\<lambda>seg. seg_start seg \<le> seg_end seg)
        (enforceReadability (buildSegments ws g sos sen) cfg)) \<and>
   (timedTokens tokens \<longrightarrow>
      sorted (map seg_start (tokensToSubtitleSegments tokens cfg)) \<and>
      list_all (\<lambda>seg. seg_start seg \<le> seg_end seg) (tokensToSubtitleSegments tokens cfg))"
proof -
  have a: "timeOk (enforceReadability (buildSegments ws g sos sen) cfg)" if "timedWords ws"
    using that by (rule enforceReadability_timeOk)
  have b: "timeOk (tokensToSubtitleSegments tokens cfg)" if "timedTokens tokens"
    using enforceReadability_timeOk [OF tokensToWords_timed [OF that]]
    by (simp add: tokensToSubtitleSegments_def Let_def timeOk_def)
  show ?thesis using a b by (simp add: timeOk_def)
qed

text \<open>
  An example with two segments and a token without an end: \<open>"Hello"\<close> from 0 to 100 ms and
  \<open>" world"\<close> starting at 8000 ms.  The pause closes the first segment, the second one
  ends where it starts, and the two are too far apart to be merged.
\<close>

definition openToken :: "jstring \<Rightarrow> real \<Rightarrow> token" where
  "openToken s a = \<lparr>tk_text = s, tk_start_ms = Some a, tk_end_ms = None,
     tk_speaker = Undefined, tk_prefix_space = False\<rparr>"

definition pausedTokens :: "token list" where
  "pausedTokens = [plainToken [0x48, 0x65, 0x6C, 0x6C, 0x6F] 0 100,
      openToken [0x20, 0x77, 0x6F, 0x72, 0x6C, 0x64] 8000]"

definition pausedWords :: "word list" where
  "pausedWords =
     [plainWord [0x48, 0x65, 0x6C, 0x6C, 0x6F] 0 100,
      \<lparr>w_text = [0x20, 0x77, 0x6F, 0x72, 0x6C, 0x64], w_start_ms = Some 8000, w_end_ms = None,
       w_speaker = Undefined, w_inner = [], w_prefix_space = True\<rparr>]"

lemma single_not_needsSplit: "\<not> needsSplit cfg (wordSegment [w] x y)"
  by (simp add: needsSplit_def wordSegment_def orElse_def)

lemma paused_token_segments:
  "map (\<lambda>seg. (seg_start seg, seg_end seg)) (tokensToSubtitleSegments pausedTokens defaultConfig)
     = [(0, 100), (8000, 8000)]"
proof -
  obtain w1 w2 where w: "tokensToWords pausedTokens = [w1, w2]"
    and w1: "w_text w1 = [0x48, 0x65, 0x6C, 0x6C, 0x6F]" "w_start_ms w1 = Some 0"
      "w_end_ms w1 = Some 100" "w_speaker w1 = Undefined"
    and w2: "w_text w2 = [0x20, 0x77, 0x6F, 0x72, 0x6C, 0x64]" "w_start_ms w2 = Some 8000"
      "w_end_ms w2 = Some 8000" "w_speaker w2 = Undefined"
    by (simp add: pausedTokens_def openToken_def tw_eval_defs)
  have b: "buildSegments [w1, w2] 1200 False False =
      [wordSegment [w1] 0 100, wordSegment [w2] 8000 8000]"
    by (simp add: w1 w2 wordSegment_def bs_eval_defs)
  have s: "splitPhase defaultConfig [wordSegment [w1] 0 100, wordSegment [w2] 8000 8000] =
      [wordSegment [w1] 0 100, wordSegment [w2] 8000 8000]"
    by (simp add: splitPhase_def splitQueue_emit [OF single_not_needsSplit])
  have e: "enforceReadability [wordSegment [w1] 0 100, wordSegment [w2] 8000 8000] defaultConfig =
      [wordSegment [w1] 0 100, wordSegment [w2] 8000 8000]"
    unfolding enforceReadability_def s
    by (subst mergeLoop_unfold) (simp add: wordSegment_def defaultConfig_def)
  have "tokensToSubtitleSegments pausedTokens defaultConfig =
      [wordSegment [w1] 0 100, wordSegment [w2] 8000 8000]"
    unfolding tokensToSubtitleSegments_def w
    by (simp add: defaultConfig_def b) (simp add: defaultConfig_def [symmetric] e)
  then show ?thesis by (simp add: wordSegment_def)
qed

lemma paused_word_segments:
  "map (\<lambda>seg. (seg_start seg, seg_end seg))
     (enforceReadability (buildSegments pausedWords 1200 False False) defaultConfig)
     = [(0, 100), (8000, 8000)]"
proof -
  obtain w1 w2 where w: "pausedWords = [w1, w2]"
    and w1: "w_text w1 = [0x48, 0x65, 0x6C, 0x6C, 0x6F]" "w_start_ms w1 = Some 0"
      "w_end_ms w1 = Some 100" "w_speaker w1 = Undefined"
    and w2: "w_text w2 = [0x20, 0x77, 0x6F, 0x72, 0x6C, 0x64]" "w_start_ms w2 = Some 8000"
      "w_end_ms w2 = None" "w_speaker w2 = Undefined"
    by (simp add: pausedWords_def plainWord_def)
  have b: "buildSegments [w1, w2] 1200 False False =
      [wordSegment [w1] 0 100, wordSegment [w2] 8000 8000]"
    by (simp add: w1 w2 wordSegment_def bs_eval_defs)
  have s: "splitPhase defaultConfig [wordSegment [w1] 0 100, wordSegment [w2] 8000 8000] =
      [wordSegment [w1] 0 100, wordSegment [w2] 8000 8000]"
    by (simp add: splitPhase_def splitQueue_emit [OF single_not_needsSplit])
  have e: "enforceReadability [wordSegment [w1] 0 100, wordSegment [w2] 8000 8000] defaultConfig =
      [wordSegment [w1] 0 100, wordSegment [w2] 8000 8000]"
    unfolding enforceReadability_def s
    by (subst mergeLoop_unfold) (simp add: wordSegment_def defaultConfig_def)
  show ?thesis unfolding w b e by (simp add: wordSegment_def)
qed

theorem segments_monotone_witness:
  "timedTokens pausedTokens \<and>
   map (\<lambda>seg. (seg_start seg, seg_end seg)) (tokensToSubtitleSegments pausedTokens defaultConfig)
     = [(0, 100), (8000, 8000)] \<and>
   sorted (map seg_start (tokensToSubtitleSegments pausedTokens defaultConfig)) \<and>
   list_all (\<lambda>seg. seg_start seg \<le> seg_end seg)
     (tokensToSubtitleSegments pausedTokens defaultConfig) \<and>
   timedWords pausedWords \<and>
   map (\<lambda>seg. (seg_start seg, seg_end seg))
     (enforceReadability (buildSegments pausedWords 1200 False False) defaultConfig)
     = [(0, 100), (8000, 8000)] \<and>
   sorted (map seg_start
     (enforceReadability (buildSegments pausedWords 1200 False False) defaultConfig)) \<and>
   list_all (\<lambda>seg. seg_start seg \<le> seg_end seg)
     (enforceReadability (buildSegments pausedWords 1200 False False) defaultConfig)"
proof -
  have a: "timedWords pausedWords"
    by (simp add: timedWords_def wordOk_def startOf_def pausedWords_def plainWord_def orElse_def)
  have b: "timedTokens pausedTokens"
    by (simp add: timedTokens_def spoken_def tokenOk_def tokStart_def pausedTokens_def
        plainToken_def openToken_def orElse_def)
  show ?thesis
    using a b segments_monotone [of pausedWords 1200 False False defaultConfig pausedTokens]
      paused_token_segments paused_word_segments
    by simp
qed

text \<open>
  Claim C7 as stated fails in three ways, one for each condition on the tokens.
  Timestamps are optional in \<open>Token\<close>: after \<open>"Hello"\<close> from 1000 to 1100 ms, a token
  \<open>" world"\<close> without timestamps makes a word with start and end 0; the segment is split
  for its reading speed, and the merge of the two children runs from the start 1000 of the
  first to the end 0 of the second.  A token that ends before it starts, \<open>"Hello"\<close> from
  1000 to 500 ms, gives a segment that does the same.  And tokens in decreasing time order,
  \<open>"Hello"\<close> from 9000 to 17000 ms followed by \<open>" world"\<close> from 0 to 2000 ms, give one
  segment that is too long and is split into one starting at 9000 and one starting at 0.
\<close>

definition untimedToken :: "jstring \<Rightarrow> token" where
  "untimedToken s = \<lparr>tk_text = s, tk_start_ms = None, tk_end_ms = None,
     tk_speaker = Undefined, tk_prefix_space = False\<rparr>"

definition lateHelloTokens :: "token list" where
  "lateHelloTokens = [plainToken [0x48, 0x65, 0x6C, 0x6C, 0x6F] 1000 1100,
      untimedToken [0x20, 0x77, 0x6F, 0x72, 0x6C, 0x64]]"

definition backwardsTokens :: "token list" where
  "backwardsTokens = [plainToken [0x48, 0x65, 0x6C, 0x6C, 0x6F] 1000 500]"

definition unorderedTokens :: "token list" where
  "unorderedTokens = [plainToken [0x48, 0x65, 0x6C, 0x6C, 0x6F] 9000 17000,
      plainToken [0x20, 0x77, 0x6F, 0x72, 0x6C, 0x64] 0 2000]"

text \<open>A segment of two words that is over budget is split into its two words.\<close>

lemma pair_split:
  assumes "needsSplit cfg (wordSegment [w1, w2] x y)"
  shows "splitPhase cfg [wordSegment [w1, w2] x y] =
     [splitLeft cfg (wordSegment [w1, w2] x y), splitRight cfg (wordSegment [w1, w2] x y)] \<and>
     findSplitIndex [w1, w2] = 1"
proof -
  have "2 \<le> length [w1, w2]" by simp
  from findSplitIndex_bounds [OF this] have i: "findSplitIndex [w1, w2] = 1" by simp
  have l: "\<not> needsSplit cfg (splitLeft cfg (wordSegment [w1, w2] x y))"
    by (simp add: needsSplit_def splitLeft_def wordSegment_def orElse_def i)
  have r: "\<not> needsSplit cfg (splitRight cfg (wordSegment [w1, w2] x y))"
    by (simp add: needsSplit_def splitRight_def wordSegment_def orElse_def i)
  show ?thesis
    by (simp add: splitPhase_def splitQueue_split [OF assms] splitQueue_emit [OF l]
        splitQueue_emit [OF r] i)
qed

lemma lateHello_segments:
  "map (\<lambda>seg. (seg_start seg, seg_end seg)) (tokensToSubtitleSegments lateHelloTokens defaultConfig)
     = [(1000, 0)]"
proof -
  obtain w1 w2 where w: "tokensToWords lateHelloTokens = [w1, w2]"
    and w1: "w_text w1 = [0x48, 0x65, 0x6C, 0x6C, 0x6F]" "w_start_ms w1 = Some 1000"
      "w_end_ms w1 = Some 1100" "w_speaker w1 = Undefined"
    and w2: "w_text w2 = [0x20, 0x77, 0x6F, 0x72, 0x6C, 0x64]" "w_start_ms w2 = Some 0"
      "w_end_ms w2 = Some 0" "w_speaker w2 = Undefined"
    by (simp add: lateHelloTokens_def untimedToken_def tw_eval_defs)
  let ?seg = "wordSegment [w1, w2] 1000 1100"
  have b: "buildSegments [w1, w2] 1200 False False = [?seg]"
    by (simp add: w1 w2 wordSegment_def bs_eval_defs)
  have n: "needsSplit defaultConfig ?seg"
    by (simp add: w1 w2 seg_eval_defs)
  note p = pair_split [OF n]
  have l: "seg_start (splitLeft defaultConfig ?seg) = 1000"
    "seg_end (splitLeft defaultConfig ?seg) = 1100"
    "\<not> seg_sentence_break (splitLeft defaultConfig ?seg)"
    by (simp_all add: splitLeft_def p w1 wordSegment_def orElse_def)
  have r: "seg_start (splitRight defaultConfig ?seg) = 0"
    "seg_end (splitRight defaultConfig ?seg) = 0"
    by (simp_all add: splitRight_def p w2 wordSegment_def orElse_def)
  have e: "enforceReadability [?seg] defaultConfig =
      [mergeSegments (splitLeft defaultConfig ?seg) (splitRight defaultConfig ?seg)]"
    unfolding enforceReadability_def
    by (simp add: p, subst mergeLoop_unfold, subst mergeLoop_unfold)
      (simp add: l r, simp add: defaultConfig_def)
  have "tokensToSubtitleSegments lateHelloTokens defaultConfig =
      [mergeSegments (splitLeft defaultConfig ?seg) (splitRight defaultConfig ?seg)]"
    unfolding tokensToSubtitleSegments_def w
    by (simp add: defaultConfig_def b) (simp add: defaultConfig_def [symmetric] e)
  then show ?thesis by (simp add: mergeSegments_def l r)
qed

lemma backwards_segments:
  "map (\<lambda>seg. (seg_start seg, seg_end seg)) (tokensToSubtitleSegments backwardsTokens defaultConfig)
     = [(1000, 500)]"
proof -
  obtain w1 where w: "tokensToWords backwardsTokens = [w1]"
    and w1: "w_text w1 = [0x48, 0x65, 0x6C, 0x6C, 0x6F]" "w_start_ms w1 = Some 1000"
      "w_end_ms w1 = Some 500" "w_speaker w1 = Undefined"
    by (simp add: backwardsTokens_def tw_eval_defs)
  have b: "buildSegments [w1] 1200 False False = [wordSegment [w1] 1000 500]"
    by (simp add: w1 wordSegment_def bs_eval_defs)
  have s: "splitPhase defaultConfig [wordSegment [w1] 1000 500] = [wordSegment [w1] 1000 500]"
    by (simp add: splitPhase_def splitQueue_emit [OF single_not_needsSplit])
  have e: "enforceReadability [wordSegment [w1] 1000 500] defaultConfig =
      [wordSegment [w1] 1000 500]"
    unfolding enforceReadability_def s by (subst mergeLoop_unfold) simp
  have "tokensToSubtitleSegments backwardsTokens defaultConfig = [wordSegment [w1] 1000 500]"
    unfolding tokensToSubtitleSegments_def w
    by (simp add: defaultConfig_def b) (simp add: defaultConfig_def [symmetric] e)
  then show ?thesis by (simp add: wordSegment_def)
qed

lemma unordered_segments:
  "map (\<lambda>seg. (seg_start seg, seg_end seg)) (tokensToSubtitleSegments unorderedTokens defaultConfig)
     = [(9000, 17000), (0, 2000)]"
proof -
  obtain w1 w2 where w: "tokensToWords unorderedTokens = [w1, w2]"
    and w1: "w_text w1 = [0x48, 0x65, 0x6C, 0x6C, 0x6F]" "w_start_ms w1 = Some 9000"
      "w_end_ms w1 = Some 17000" "w_speaker w1 = Undefined"
    and w2: "w_text w2 = [0x20, 0x77, 0x6F, 0x72, 0x6C, 0x64]" "w_start_ms w2 = Some 0"
      "w_end_ms w2 = Some 2000" "w_speaker w2 = Undefined"
    by (simp add: unorderedTokens_def tw_eval_defs)
  let ?seg = "wordSegment [w1, w2] 9000 17000"
  have b: "buildSegments [w1, w2] 1200 False False = [?seg]"
    by (simp add: w1 w2 wordSegment_def bs_eval_defs)
  have n: "needsSplit defaultConfig ?seg"
    by (simp add: w1 w2 seg_eval_defs)
  note p = pair_split [OF n]
  have l: "seg_start (splitLeft defaultConfig ?seg) = 9000"
    "seg_end (splitLeft defaultConfig ?seg) = 17000"
    by (simp_all add: splitLeft_def p w1 wordSegment_def orElse_def)
  have r: "seg_start (splitRight defaultConfig ?seg) = 0"
    "seg_end (splitRight defaultConfig ?seg) = 2000"
    by (simp_all add: splitRight_def p w2 wordSegment_def orElse_def)
  have e: "enforceReadability [?seg] defaultConfig =
      [splitLeft defaultConfig ?seg, splitRight defaultConfig ?seg]"
    unfolding enforceReadability_def
    by (simp add: p, subst mergeLoop_unfold) (simp add: l r, simp add: defaultConfig_def)
  have "tokensToSubtitleSegments unorderedTokens defaultConfig =
      [splitLeft defaultConfig ?seg, splitRight defaultConfig ?seg]"
    unfolding tokensToSubtitleSegments_def w
    by (simp add: defaultConfig_def b) (simp add: defaultConfig_def [symmetric] e)
  then show ?thesis by (simp add: l r)
qed

theorem segments_monotone_counterexample:
  "map (\<lambda>seg. (seg_start seg, seg_end seg)) (tokensToSubtitleSegments lateHelloTokens defaultConfig)
     = [(1000, 0)] \<and>
   map (\<lambda>seg. (seg_start seg, seg_end seg)) (tokensToSubtitleSegments backwardsTokens defaultConfig)
     = [(1000, 500)] \<and>
   map (\<lambda>seg. (seg_start seg, seg_end seg)) (tokensToSubtitleSegments unorderedTokens defaultConfig)
     = [(9000, 17000), (0, 2000)]"
  using lateHello_segments backwards_segments unordered_segments by simp



section \<open>Properties of the line wrapper and the renderer\<close>

subsection \<open>At most two lines without delimiters\<close>

lemma tryCandidate_length: "tryCandidate tokens maxCpl c = Some lines \<Longrightarrow> length lines = 2"
  by (auto simp: tryCandidate_def Let_def split: if_splits)

lemma firstSome_length:
  "firstSome (tryCandidate tokens maxCpl) cs = Some lines \<Longrightarrow> length lines = 2"
  by (induction cs) (auto split: option.splits dest: tryCandidate_length)

lemma walkLines_length:
  "walkLines tokens maxCpl ts i charLen lastSafe = Some lines \<Longrightarrow> length lines = 2"
proof (induction ts arbitrary: i charLen lastSafe)
  case Nil
  then show ?case by simp
next
  case (Cons t ts)
  then show ?case
    by (auto simp: Let_def split: if_splits option.splits
        dest: firstSome_length tryCandidate_length)
qed

lemma tokenAwareSplit_length: "length (tokenAwareSplit tokens stripped maxCpl) \<le> 2"
  by (auto simp: tokenAwareSplit_def Let_def split: option.splits dest: walkLines_length)

lemma slice_length_le: "length (slice a b xs) \<le> length xs"
  by (simp add: slice_def Let_def)

text \<open>
  Claim C10.  Without preferred delimiters \<open>wrapTwoLinesTokenAware\<close> returns at most two
  lines, whatever \<open>maxLines\<close> is; a result of more than two lines is the result of
  \<open>wrapWithPreferredDelimiters\<close>, which needs \<open>maxLines > 1\<close> and a non-empty delimiter
  list; and an entry rendered from a segment with words and no configured delimiters has at
  most two lines.
\<close>

theorem token_aware_two_lines:
  "(preferredDelimiters = [] \<longrightarrow>
      length (wrapTwoLinesTokenAware tokens txt maxCpl maxLines preferredDelimiters) \<le> 2) \<and>
   (2 < length (wrapTwoLinesTokenAware tokens txt maxCpl maxLines preferredDelimiters) \<longrightarrow>
      1 < maxLines \<and> preferredDelimiters \<noteq> [] \<and>
      wrapWithPreferredDelimiters (trim txt) preferredDelimiters maxCpl maxLines =
        Some (wrapTwoLinesTokenAware tokens txt maxCpl maxLines preferredDelimiters)) \<and>
   (line_split_delimiters cfg = [] \<and> seg_tokens seg = Some tokens \<and> tokens \<noteq> [] \<longrightarrow>
      length (e_lines (renderSegment cfg i seg)) \<le> 2)"
proof -
  note t = tokenAwareSplit_length [of tokens "trim txt" maxCpl]
  have a: "preferredDelimiters = [] \<longrightarrow>
      length (wrapTwoLinesTokenAware tokens txt maxCpl maxLines preferredDelimiters) \<le> 2"
    using t by (simp add: wrapTwoLinesTokenAware_def Let_def)
  have b: "2 < length (wrapTwoLinesTokenAware tokens txt maxCpl maxLines preferredDelimiters) \<longrightarrow>
      1 < maxLines \<and> preferredDelimiters \<noteq> [] \<and>
      wrapWithPreferredDelimiters (trim txt) preferredDelimiters maxCpl maxLines =
        Some (wrapTwoLinesTokenAware tokens txt maxCpl maxLines preferredDelimiters)"
    using t by (auto simp: wrapTwoLinesTokenAware_def Let_def split: if_splits option.splits)
  have c: "length (e_lines (renderSegment cfg i seg)) \<le> 2"
    if "line_split_delimiters cfg = []" "seg_tokens seg = Some tokens" "tokens \<noteq> []"
  proof -
    let ?l = "wrapTwoLinesTokenAware tokens
        (if seg_suffix_ellipsis seg
         then (if seg_prefix_ellipsis seg then [0x2026] @ segmentText seg else segmentText seg) @ [0x2026]
         else (if seg_prefix_ellipsis seg then [0x2026] @ segmentText seg else segmentText seg))
        (max_cpl cfg) (max_lines cfg) []"
    have "length ?l \<le> 2"
      using tokenAwareSplit_length by (simp add: wrapTwoLinesTokenAware_def Let_def)
    moreover have "e_lines (renderSegment cfg i seg) = slice 0 (max_lines cfg) ?l"
      using that by (simp add: renderSegment_def Let_def)
    ultimately show ?thesis using slice_length_le [of 0 "max_lines cfg" ?l] by simp
  qed
  show ?thesis using a b c by blast
qed


text \<open>Examples: \<open>"Hello world"\<close> wrapped at 5 characters, and \<open>"a,b,c"\<close> packed at the
  delimiter \<open>","\<close> into three lines of at most 2 characters.\<close>

lemmas wrap_eval_defs =
  wrapTwoLinesTokenAware_def wrapTwoLinesNaive_def tokenAwareSplit_def nearestSafe_def
  lineSafeAfter_def tryCandidate_def wrapWithPreferredDelimiters_def partitionChunks_def
  splitTextByDelimiters_def renderSegment_def renderSegments_def segmentText_def concatText_def
  safeBoundary_def startsWithSpace_def lastChar_def SENTENCE_ENDERS_def MINOR_BREAKERS_def
  trim_def trimStart_def trimEnd_def is_ws_def slice_def sliceIndex_def
  wordSegment_def plainWord_def helloWord_def worldWord_def defaultConfig_def Let_def

definition helloWorldText :: jstring where
  "helloWorldText = [0x48, 0x65, 0x6C, 0x6C, 0x6F, 0x20, 0x77, 0x6F, 0x72, 0x6C, 0x64]"

lemma hello_world_lines:
  "wrapTwoLinesTokenAware [helloWord, worldWord] helloWorldText 5 3 [] =
     [[0x48, 0x65, 0x6C, 0x6C, 0x6F], [0x77, 0x6F, 0x72, 0x6C, 0x64]]"
  by (simp add: helloWorldText_def wrap_eval_defs)

definition abcText :: jstring where
  "abcText = [0x61, 0x2C, 0x62, 0x2C, 0x63]"

lemma abc_lines:
  "wrapWithPreferredDelimiters (trim abcText) [[0x2C]] 2 3 =
     Some [[0x61, 0x2C], [0x62, 0x2C], [0x63]]"
  by (simp add: abcText_def wrap_eval_defs numeral_3_eq_3 numeral_2_eq_2)

lemma abc_wrapped:
  "wrapTwoLinesTokenAware [helloWord] abcText 2 3 [[0x2C]] = [[0x61, 0x2C], [0x62, 0x2C], [0x63]]"
  using abc_lines by (simp add: wrapTwoLinesTokenAware_def Let_def)

theorem token_aware_two_lines_witness:
  "length (wrapTwoLinesTokenAware [helloWord, worldWord] helloWorldText 5 3 []) = 2 \<and>
   2 < length (wrapTwoLinesTokenAware [helloWord] abcText 2 3 [[0x2C]]) \<and>
   wrapWithPreferredDelimiters (trim abcText) [[0x2C]] 2 3 =
     Some (wrapTwoLinesTokenAware [helloWord] abcText 2 3 [[0x2C]]) \<and>
   line_split_delimiters defaultConfig = [] \<and>
   seg_tokens pairSegment = Some [helloWord, worldWord] \<and>
   length (e_lines (renderSegment defaultConfig 0 pairSegment)) \<le> 2"
proof -
  have a: "line_split_delimiters defaultConfig = []"
    "seg_tokens pairSegment = Some [helloWord, worldWord]"
    by (simp_all add: defaultConfig_def pairSegment_def wordSegment_def)
  show ?thesis
    using token_aware_two_lines [of "[]" "[helloWord, worldWord]" helloWorldText 5 3
        defaultConfig pairSegment 0]
      token_aware_two_lines [of "[[0x2C]]" "[helloWord]" abcText 2 3 defaultConfig pairSegment 0]
      a hello_world_lines abc_wrapped
    by simp
qed

subsection \<open>A run of 100 characters without spaces\<close>

text \<open>
  \<open>spaceless\<close>: a text without white space.  \<open>shownText\<close>: the text \<open>renderSegments\<close>
  hands to the wrapper, the text of the segment between its ellipses.  \<open>hasWords\<close>: the
  test \<open>tokens && tokens.length > 0\<close> that sends a segment to the token-aware wrapper.
\<close>

definition spaceless :: "jstring \<Rightarrow> bool" where
  "spaceless s \<longleftrightarrow> list_all (\<lambda>c. \<not> is_ws c) s"

definition shownText :: "segment \<Rightarrow> jstring" where
  "shownText seg =
     (let t0 = segmentText seg;
          t1 = (if seg_prefix_ellipsis seg then [0x2026] @ t0 else t0)
      in if seg_suffix_ellipsis seg then t1 @ [0x2026] else t1)"

definition hasWords :: "segment \<Rightarrow> bool" where
  "hasWords seg = (case seg_tokens seg of Some tokens \<Rightarrow> length tokens > 0 | None \<Rightarrow> False)"

lemma spaceless_trim: "spaceless s \<Longrightarrow> trim s = s"
proof -
  assume a: "spaceless s"
  have s: "trimStart s = s"
    using a by (cases s) (simp_all add: trimStart_def spaceless_def)
  have "dropWhile is_ws (rev s) = rev s"
    using a by (cases "rev s") (auto simp: spaceless_def list_all_iff)
  then show ?thesis by (simp add: trim_def s trimEnd_def)
qed

lemma spaceless_append: "spaceless (a @ b) \<longleftrightarrow> spaceless a \<and> spaceless b"
  by (simp add: spaceless_def)

lemma spaceless_removeWs: "spaceless s \<Longrightarrow> removeWs s = s"
  by (simp add: spaceless_def removeWs_def list_all_iff)

lemma codePoints_concat: "concat (codePoints s) = s"
  by (induction s rule: codePoints.induct) simp_all

lemma codePoints_spaceless: "spaceless s \<Longrightarrow> list_all spaceless (codePoints s)"
  by (induction s rule: codePoints.induct) (simp_all add: spaceless_def)

lemma delimiterLoop_concat:
  "list_all spaceless cps \<Longrightarrow> spaceless cur \<Longrightarrow>
   concat (delimiterLoop d cps cur) = cur @ concat cps"
proof (induction cps arbitrary: cur)
  case Nil
  then show ?case by (simp add: spaceless_trim Let_def)
next
  case (Cons ch chs)
  have sp: "spaceless (cur @ ch)" using Cons.prems by (simp add: spaceless_append)
  have e: "spaceless []" by (simp add: spaceless_def)
  show ?case
  proof (cases "ch \<in> set d")
    case True
    then show ?thesis using Cons.IH [OF _ e] Cons.prems(1) spaceless_trim [OF sp]
      by (simp add: Let_def)
  next
    case False
    then show ?thesis using Cons.IH [OF _ sp] Cons.prems(1) by simp
  qed
qed

lemma splitTextByDelimiters_concat:
  assumes "spaceless s"
  shows "concat (splitTextByDelimiters s delims) = s"
proof -
  have w: "is_ws 0x0A" by (simp add: is_ws_def)
  have "\<forall>c\<in>set s. c \<noteq> 0x0A"
    using assms w unfolding spaceless_def list_all_iff by blast
  then have c: "map (\<lambda>c. if c = 0x0A then 0x20 else c) s = s"
    by (intro map_idI) simp
  have e: "spaceless []" by (simp add: spaceless_def)
  have d: "concat (delimiterLoop d (codePoints s) []) = s" for d
    using delimiterLoop_concat [OF codePoints_spaceless [OF assms] e, of d]
    by (simp add: codePoints_concat)
  have t: "trim s = s" using assms by (rule spaceless_trim)
  show ?thesis
    unfolding splitTextByDelimiters_def Let_def c
    by (simp add: d t)
qed

lemma helper_room:
  "0 \<le> m \<Longrightarrow> helper m r cs = Some lines \<Longrightarrow> int (length (concat cs)) \<le> m * int r"
  "0 \<le> m \<Longrightarrow> helperLoop m r line cs = Some lines \<Longrightarrow>
     int (length line) + int (length (concat cs)) \<le> m * (int r + 1)"
proof (induction m r cs and m r line cs arbitrary: lines and lines rule: helper_helperLoop.induct)
  case (1 maxCpl remaining)
  then show ?case by simp
next
  case (2 maxCpl c cs)
  then show ?case by simp
next
  case (3 maxCpl r c cs)
  from 3(1) [OF 3(2)] 3(3) show ?case by (simp add: algebra_simps)
next
  case (4 maxCpl r line)
  then show ?case by simp
next
  case (5 maxCpl r line c cs)
  let ?line = "if length line > 0 then line @ [0x20] @ c else c"
  have fit: "int (length ?line) \<le> maxCpl" using 5(4) by (auto simp: Let_def split: if_splits)
  have ge: "length line + length c \<le> length ?line" by simp
  show ?case
  proof (cases "helper maxCpl r cs")
    case None
    then have "helperLoop maxCpl r ?line cs = Some lines"
      using 5(4) fit by (auto simp: Let_def split: if_splits)
    from 5(2) [OF refl _ None 5(3) this] fit ge show ?thesis by simp
  next
    case (Some rest)
    from 5(1) [OF refl _ 5(3) Some] fit
    have "int (length (concat cs)) \<le> maxCpl * int r" by simp
    then show ?thesis using fit ge by (simp add: algebra_simps)
  qed
qed

lemma wrapWithPreferredDelimiters_long:
  assumes "spaceless s" "0 \<le> maxCpl" "maxCpl * maxLines < int (length s)"
  shows "wrapWithPreferredDelimiters s delims maxCpl maxLines = None"
proof (cases "maxLines \<le> 1")
  case True
  then show ?thesis by (simp add: wrapWithPreferredDelimiters_def)
next
  case False
  let ?chunks = "splitTextByDelimiters s delims"
  have c: "concat ?chunks = s" using assms(1) by (rule splitTextByDelimiters_concat)
  have "helper maxCpl (nat maxLines) ?chunks = None"
  proof (cases "helper maxCpl (nat maxLines) ?chunks")
    case None
    then show ?thesis .
  next
    case (Some lines)
    from helper_room(1) [OF assms(2) Some] c False assms(3) show ?thesis by simp
  qed
  then show ?thesis using False
    by (simp add: wrapWithPreferredDelimiters_def partitionChunks_def Let_def)
qed

lemma slice_take: "0 \<le> b \<Longrightarrow> slice 0 b xs = take (nat b) xs"
  by (simp add: slice_def sliceIndex_def Let_def min_def)

lemma slice_mid:
  "0 \<le> a \<Longrightarrow> a \<le> b \<Longrightarrow> nat b \<le> length xs \<Longrightarrow>
   slice a b xs = take (nat b - nat a) (drop (nat a) xs)"
  by (simp add: slice_def sliceIndex_def Let_def min_def)

lemma naive_long_run:
  assumes "length s = 100" "spaceless s"
  shows "wrapTwoLinesNaive s 42 2 delims = [take 42 s, take 42 (drop 42 s)]"
proof -
  have t: "trim s = s" using assms(2) by (rule spaceless_trim)
  have w: "wrapWithPreferredDelimiters s delims 42 2 = None"
    using assms by (intro wrapWithPreferredDelimiters_long) simp_all
  have n: "0x20 \<notin> set s" using assms(2) by (auto simp: spaceless_def list_all_iff is_ws_def)
  have a: "slice 0 42 s = take 42 s" by (simp add: slice_take)
  have b: "slice 42 84 s = take 42 (drop 42 s)"
    using assms(1) by (simp add: slice_mid)
  have ne: "take 42 (drop 42 s) \<noteq> []" using assms(1) by auto
  show ?thesis
    using n ne assms(1) by (simp add: wrapTwoLinesNaive_def t w a b Let_def)
qed

lemma removeWs_dropWhile: "removeWs (dropWhile is_ws s) = removeWs s"
  by (induction s) (simp_all add: removeWs_def)

lemma removeWs_rev: "removeWs (rev s) = rev (removeWs s)"
  by (simp add: removeWs_def rev_filter)

lemma removeWs_trimmed:
  "removeWs (trimStart s) = removeWs s" "removeWs (trimEnd s) = removeWs s"
  "removeWs (trim s) = removeWs s"
  by (simp_all add: trim_def trimStart_def trimEnd_def removeWs_dropWhile removeWs_rev)

lemma removeWs_length: "length (removeWs s) \<le> length s"
  by (simp add: removeWs_def)

text \<open>The two lines of a split hold every character of the words that is not white space.\<close>

lemma split_lines_room:
  "length (removeWs (concat (map w_text ws))) \<le>
     length (trimEnd (concatText (take k ws))) + length (trimStart (concatText (drop k ws)))"
proof -
  have "concat (map w_text ws) = concat (map w_text (take k ws)) @ concat (map w_text (drop k ws))"
    by (metis append_take_drop_id concat_append map_append)
  then have "length (removeWs (concat (map w_text ws))) =
      length (removeWs (concat (map w_text (take k ws)))) +
      length (removeWs (concat (map w_text (drop k ws))))"
    by (simp add: removeWs_def)
  moreover have "length (removeWs (concat (map w_text (take k ws)))) \<le>
      length (trimEnd (concatText (take k ws)))"
    using removeWs_length [of "trimEnd (concatText (take k ws))"]
    by (simp add: removeWs_trimmed concatText_def)
  moreover have "length (removeWs (concat (map w_text (drop k ws)))) \<le>
      length (trimStart (concatText (drop k ws)))"
    using removeWs_length [of "trimStart (concatText (drop k ws))"]
    by (simp add: removeWs_trimmed concatText_def)
  ultimately show ?thesis by linarith
qed

lemma tryCandidate_long:
  assumes "2 * maxCpl < int (length (removeWs (concat (map w_text ws))))"
  shows "tryCandidate ws maxCpl c = None"
  using assms split_lines_room [of ws "c + 1"]
  by (auto simp: tryCandidate_def Let_def)

lemma firstSome_None: "(\<And>x. f x = None) \<Longrightarrow> firstSome f xs = None"
  by (induction xs) simp_all

lemma walkLines_long:
  assumes "2 * maxCpl < int (length (removeWs (concat (map w_text ws))))"
  shows "walkLines ws maxCpl ts i charLen lastSafe = None"
proof (induction ts arbitrary: i charLen lastSafe)
  case Nil
  then show ?case by simp
next
  case (Cons t ts)
  have "firstSome (tryCandidate ws maxCpl) cs = None" for cs
    by (rule firstSome_None) (rule tryCandidate_long [OF assms])
  then show ?case using Cons by (simp add: Let_def del: firstSome.simps split: option.splits)
qed

lemma tokenAwareSplit_long:
  assumes "2 * maxCpl < int (length (removeWs (concat (map w_text ws))))"
  shows "tokenAwareSplit ws stripped maxCpl = [stripped]"
proof -
  have "\<not> (int (length (trimEnd (concatText (take (n + 1) ws)))) \<le> maxCpl \<and>
      int (length (trimStart (concatText (drop (n + 1) ws)))) \<le> maxCpl)" for n
    using assms split_lines_room [of ws "n + 1"] by linarith
  then show ?thesis
    by (auto simp: tokenAwareSplit_def walkLines_long [OF assms] Let_def split: option.splits)
qed

lemma tokenAware_long_run:
  assumes "spaceless txt" "84 < length txt"
    "84 < length (removeWs (concat (map w_text ws)))"
  shows "wrapTwoLinesTokenAware ws txt 42 2 delims = [txt]"
proof -
  have t: "trim txt = txt" using assms(1) by (rule spaceless_trim)
  have w: "wrapWithPreferredDelimiters txt delims 42 2 = None"
    using assms by (intro wrapWithPreferredDelimiters_long) simp_all
  have s: "tokenAwareSplit ws txt 42 = [txt]"
    using assms(3) by (intro tokenAwareSplit_long) simp
  show ?thesis using assms(2) by (simp add: wrapTwoLinesTokenAware_def t w s Let_def)
qed


lemma renderSegment_shown:
  "e_lines (renderSegment cfg i seg) =
     slice 0 (max_lines cfg)
       (if hasWords seg
        then wrapTwoLinesTokenAware (orElse (seg_tokens seg) []) (shownText seg)
               (max_cpl cfg) (max_lines cfg) (line_split_delimiters cfg)
        else wrapTwoLinesNaive (shownText seg) (max_cpl cfg) (max_lines cfg)
               (line_split_delimiters cfg))"
  by (simp add: renderSegment_def shownText_def hasWords_def orElse_def Let_def
      split: option.splits)

lemma shown_segmentText:
  assumes "spaceless (shownText seg)"
  shows "spaceless (segmentText seg) \<and> length (shownText seg) \<le> length (segmentText seg) + 2"
  using assms by (auto simp: shownText_def Let_def spaceless_def split: if_splits)

lemma words_of_run:
  assumes "spaceless (shownText seg)" "hasWords seg"
  shows "length (shownText seg) \<le>
     length (removeWs (concat (map w_text (orElse (seg_tokens seg) [])))) + 2"
proof -
  from assms(2) obtain ws where w: "seg_tokens seg = Some ws"
    by (auto simp: hasWords_def split: option.splits)
  have t: "segmentText seg = trim (concat (map w_text ws))"
    by (simp add: segmentText_def w concatText_def)
  from shown_segmentText [OF assms(1)]
  have a: "spaceless (segmentText seg)"
    and b: "length (shownText seg) \<le> length (segmentText seg) + 2" by simp_all
  have "removeWs (concat (map w_text ws)) = segmentText seg"
    using spaceless_removeWs [OF a] by (simp add: t removeWs_trimmed)
  then show ?thesis using b by (simp add: w orElse_def)
qed

text \<open>
  Claim C3, as amended.  Let \<open>s\<close> be a run of 100 characters without white space, wrapped
  with \<open>max_cpl = 42\<close> and \<open>max_lines = 2\<close>, whatever the preferred delimiters.
  \<open>wrapTwoLinesNaive\<close>, the wrapper of a segment without words, cuts it into the first 42
  characters and the next 42 and drops the last 16.  \<open>wrapTwoLinesTokenAware\<close>, the wrapper
  of a segment with words, returns the whole run as one line, whatever the words are and
  whatever boundaries between them are safe: two lines are returned only when both fit.
  So an entry rendered from a segment whose text is \<open>s\<close> has the one line \<open>s\<close> when the
  segment has words, and the two lines of the hard cut when it has none.
\<close>

theorem long_run_wrapping:
  "length s = 100 \<and> spaceless s \<longrightarrow>
     wrapTwoLinesNaive s 42 2 delims = [take 42 s, take 42 (drop 42 s)] \<and>
     (concatText ws = s \<longrightarrow> wrapTwoLinesTokenAware ws s 42 2 delims = [s]) \<and>
     (max_cpl cfg = 42 \<and> max_lines cfg = 2 \<and> shownText seg = s \<longrightarrow>
        e_lines (renderSegment cfg i seg) =
          (if hasWords seg then [s] else [take 42 s, take 42 (drop 42 s)]))"
proof (intro impI, elim conjE)
  assume l: "length s = 100" and sp: "spaceless s"
  have a: "wrapTwoLinesNaive s 42 2 d = [take 42 s, take 42 (drop 42 s)]" for d
    using l sp by (rule naive_long_run)
  have b: "wrapTwoLinesTokenAware ws s 42 2 delims = [s]" if "concatText ws = s"
  proof -
    have "removeWs (concat (map w_text ws)) = s"
      using that spaceless_removeWs [OF sp] removeWs_trimmed(3) [of "concat (map w_text ws)"]
      by (simp add: concatText_def)
    then show ?thesis using l sp by (intro tokenAware_long_run) simp_all
  qed
  have c: "e_lines (renderSegment cfg i seg) =
      (if hasWords seg then [s] else [take 42 s, take 42 (drop 42 s)])"
    if "max_cpl cfg = 42" "max_lines cfg = 2" "shownText seg = s"
  proof (cases "hasWords seg")
    case True
    have "84 < length (removeWs (concat (map w_text (orElse (seg_tokens seg) []))))"
      using words_of_run [of seg] True that(3) sp l by simp
    then have "wrapTwoLinesTokenAware (orElse (seg_tokens seg) []) s 42 2
        (line_split_delimiters cfg) = [s]"
      using l sp by (intro tokenAware_long_run) simp_all
    then show ?thesis using True that
      by (simp add: renderSegment_shown slice_def sliceIndex_def)
  next
    case False
    then show ?thesis using that a [of "line_split_delimiters cfg"]
      by (simp add: renderSegment_shown slice_def sliceIndex_def)
  qed
  show "wrapTwoLinesNaive s 42 2 delims = [take 42 s, take 42 (drop 42 s)] \<and>
     (concatText ws = s \<longrightarrow> wrapTwoLinesTokenAware ws s 42 2 delims = [s]) \<and>
     (max_cpl cfg = 42 \<and> max_lines cfg = 2 \<and> shownText seg = s \<longrightarrow>
        e_lines (renderSegment cfg i seg) =
          (if hasWords seg then [s] else [take 42 s, take 42 (drop 42 s)]))"
    using a b c by blast
qed

text \<open>A segment whose only word is a run of 100 letters \<open>a\<close>.\<close>


definition longRun :: jstring where
  "longRun = replicate 100 0x61"

definition longRunSegment :: segment where
  "longRunSegment = wordSegment [plainWord longRun 0 5000] 0 5000"

lemma trim_replicate: "\<not> is_ws c \<Longrightarrow> trim (replicate n c) = replicate n c"
  by (simp add: trim_def trimStart_def trimEnd_def dropWhile_replicate)

lemma longRun_trim: "trim longRun = longRun"
  unfolding longRun_def by (rule trim_replicate) (simp add: is_ws_def)

lemma longRun_length: "length longRun = 100"
  by (simp add: longRun_def)

lemma longRun_tokenAware:
  "wrapTwoLinesTokenAware [plainWord longRun 0 5000] longRun 42 2 [] = [longRun]"
  by (simp add: wrapTwoLinesTokenAware_def tokenAwareSplit_def nearestSafe_def lineSafeAfter_def
      longRun_trim longRun_length plainWord_def Let_def)

text \<open>The same run as the text of a segment without words.\<close>

definition longRunCaption :: segment where
  "longRunCaption = \<lparr>seg_start = 0, seg_end = 5000, seg_speaker = Null,
     seg_tokens = None, seg_text = Some longRun, seg_sentence_break = False,
     seg_prefix_ellipsis = False, seg_suffix_ellipsis = False\<rparr>"

theorem long_run_wrapping_witness:
  "length longRun = 100 \<and> spaceless longRun \<and>
   wrapTwoLinesNaive longRun 42 2 [] = [replicate 42 0x61, replicate 42 0x61] \<and>
   concatText [plainWord longRun 0 5000] = longRun \<and>
   wrapTwoLinesTokenAware [plainWord longRun 0 5000] longRun 42 2 [] = [longRun] \<and>
   shownText longRunCaption = longRun \<and> \<not> hasWords longRunCaption \<and>
   e_lines (renderSegment defaultConfig 0 longRunCaption) =
     [replicate 42 0x61, replicate 42 0x61] \<and>
   shownText longRunSegment = longRun \<and> hasWords longRunSegment \<and>
   e_lines (renderSegment defaultConfig 0 longRunSegment) = [longRun]"
proof -
  have sp: "spaceless longRun" by (simp add: spaceless_def longRun_def list_all_iff is_ws_def)
  have ct: "concatText [plainWord longRun 0 5000] = longRun"
    by (simp add: concatText_def plainWord_def longRun_trim)
  have c: "shownText longRunCaption = longRun" "\<not> hasWords longRunCaption"
    by (simp_all add: shownText_def hasWords_def longRunCaption_def segmentText_def orElse_def)
  have w: "shownText longRunSegment = longRun" "hasWords longRunSegment"
    using ct by (simp_all add: shownText_def hasWords_def longRunSegment_def wordSegment_def
        segmentText_def)
  have d: "max_cpl defaultConfig = 42" "max_lines defaultConfig = 2"
    by (simp_all add: defaultConfig_def)
  have t: "take 42 longRun = replicate 42 0x61" "take 42 (drop 42 longRun) = replicate 42 0x61"
    by (simp_all add: longRun_def)
  show ?thesis
    using long_run_wrapping [of longRun "[]" "[plainWord longRun 0 5000]" defaultConfig
        longRunCaption 0]
      long_run_wrapping [of longRun "[]" "[plainWord longRun 0 5000]" defaultConfig
        longRunSegment 0]
      longRun_length sp ct c w d t
    by simp
qed

text \<open>
  Claim C3 as stated fails on a segment with words.  The segment whose only word is the run
  of 100 letters is rendered, with \<open>max_cpl = 42\<close> and \<open>max_lines = 2\<close>, as one line
  holding all 100 characters: nothing is cut and nothing is dropped.
\<close>

theorem long_run_single_line:
  "map e_lines (renderSegments [longRunSegment] defaultConfig) = [[longRun]] \<and>
   seg_tokens longRunSegment = Some [plainWord longRun 0 5000] \<and>
   length longRun = 100 \<and> 0x20 \<notin> set longRun \<and>
   max_cpl defaultConfig = 42 \<and> max_lines defaultConfig = 2"
proof -
  have t: "segmentText longRunSegment = longRun"
    by (simp add: longRunSegment_def wordSegment_def segmentText_def concatText_def
        plainWord_def longRun_trim)
  have f: "seg_tokens longRunSegment = Some [plainWord longRun 0 5000]"
    "\<not> seg_prefix_ellipsis longRunSegment" "\<not> seg_suffix_ellipsis longRunSegment"
    by (simp_all add: longRunSegment_def wordSegment_def)
  have a: "map e_lines (renderSegments [longRunSegment] defaultConfig) = [[longRun]]"
    by (simp add: renderSegments_def renderSegment_def t f Let_def defaultConfig_def
        longRun_tokenAware slice_def sliceIndex_def)
  have n: "0x20 \<notin> set longRun" by (simp add: longRun_def)
  have d: "max_cpl defaultConfig = 42" "max_lines defaultConfig = 2"
    by (simp_all add: defaultConfig_def)
  show ?thesis using a f(1) n d longRun_length by simp
qed


subsection \<open>Indices and timestamps\<close>

text \<open>The fields of \<open>HH:MM:SS,mmm\<close> as the specification words them: two and three
  decimal digits, zero-padded.\<close>

definition twoDigits :: "nat \<Rightarrow> jstring" where
  "twoDigits n = [0x30 + n div 10, 0x30 + n mod 10]"

definition threeDigits :: "nat \<Rightarrow> jstring" where
  "threeDigits n = [0x30 + n div 100, 0x30 + n div 10 mod 10, 0x30 + n mod 10]"

lemma numToString_digit: "n < 10 \<Longrightarrow> numToString n = [0x30 + n]"
  by (subst numToString.simps) simp

lemma numToString_two: "10 \<le> n \<Longrightarrow> n < 100 \<Longrightarrow> numToString n = [0x30 + n div 10, 0x30 + n mod 10]"
  by (subst numToString.simps) (simp add: numToString_digit)

lemma numToString_three:
  "100 \<le> n \<Longrightarrow> n < 1000 \<Longrightarrow>
   numToString n = [0x30 + n div 100, 0x30 + n div 10 mod 10, 0x30 + n mod 10]"
  by (subst numToString.simps) (simp add: numToString_two div_mult2_eq [symmetric])

lemma pad_two: "n < 100 \<Longrightarrow> padStart 2 0x30 (numToString n) = twoDigits n"
  by (cases "n < 10") (simp_all add: padStart_def twoDigits_def numToString_digit numToString_two)

lemma pad_three: "n < 1000 \<Longrightarrow> padStart 3 0x30 (numToString n) = threeDigits n"
proof -
  assume n: "n < 1000"
  consider "n < 10" | "10 \<le> n" "n < 100" | "100 \<le> n" by linarith
  then show ?thesis
  proof cases
    case 1
    then show ?thesis by (simp add: padStart_def threeDigits_def numToString_digit numeral_2_eq_2)
  next
    case 2
    then show ?thesis by (simp add: padStart_def threeDigits_def numToString_two)
  next
    case 3
    then show ?thesis using n by (simp add: padStart_def threeDigits_def numToString_three)
  qed
qed

lemma formatTimestamp_fields:
  "formatTimestamp ms =
     (let m = nat (max 0 \<lfloor>ms\<rfloor>) in
      padStart 2 0x30 (numToString (m div 3600000)) @ [0x3A] @
      twoDigits (m div 60000 mod 60) @ [0x3A] @
      twoDigits (m div 1000 mod 60) @ [0x2C] @
      threeDigits (m mod 1000))"
  by (simp add: formatTimestamp_def Let_def pad_two pad_three div_mult2_eq [symmetric])

lemma formatTimestamp_floor: "formatTimestamp (of_int (max 0 \<lfloor>ms\<rfloor>)) = formatTimestamp ms"
  by (simp add: formatTimestamp_def)

lemma renderSegments_index:
  "map e_index (renderSegments segs cfg) = map Suc [0 ..< length segs]"
proof -
  have "map e_index (renderSegments segs cfg) =
      map (\<lambda>p. Suc (fst p)) (zip [0 ..< length segs] segs)"
    by (simp add: renderSegments_def renderSegment_def Let_def case_prod_beta)
  also have "\<dots> = map (Suc \<circ> fst) (zip [0 ..< length segs] segs)"
    by (simp only: comp_def)
  also have "\<dots> = map Suc (map fst (zip [0 ..< length segs] segs))"
    by (simp only: map_map)
  also have "map fst (zip [0 ..< length segs] segs) = [0 ..< length segs]"
    by (rule map_fst_zip) simp
  finally show ?thesis .
qed

text \<open>
  Claim C9.  The entries of \<open>renderSegments\<close> carry the indices 1, 2, ... in order, one
  entry per segment.  \<open>formatTimestamp\<close> depends on its argument only through
  \<open>max 0 (floor ms)\<close>; its result is the hours, padded to at least two digits, a colon, two
  digits of minutes, a colon, two digits of seconds, a comma and three digits of
  milliseconds; below 100 hours the hours are two digits and the result has 12 characters;
  and every argument below 1, negative ones included, gives \<open>00:00:00,000\<close>.
\<close>

theorem render_index_and_timestamp:
  "map e_index (renderSegments segs cfg) = map Suc [0 ..< length segs] \<and>
   length (renderSegments segs cfg) = length segs \<and>
   formatTimestamp (of_int (max 0 \<lfloor>ms\<rfloor>)) = formatTimestamp ms \<and>
   formatTimestamp ms =
     padStart 2 0x30 (numToString (nat (max 0 \<lfloor>ms\<rfloor>) div 3600000)) @ [0x3A] @
     twoDigits (nat (max 0 \<lfloor>ms\<rfloor>) div 60000 mod 60) @ [0x3A] @
     twoDigits (nat (max 0 \<lfloor>ms\<rfloor>) div 1000 mod 60) @ [0x2C] @
     threeDigits (nat (max 0 \<lfloor>ms\<rfloor>) mod 1000) \<and>
   (ms < 360000000 \<longrightarrow>
      padStart 2 0x30 (numToString (nat (max 0 \<lfloor>ms\<rfloor>) div 3600000)) =
        twoDigits (nat (max 0 \<lfloor>ms\<rfloor>) div 3600000) \<and>
      length (formatTimestamp ms) = 12) \<and>
   (ms < 1 \<longrightarrow> formatTimestamp ms = twoDigits 0 @ [0x3A] @ twoDigits 0 @ [0x3A] @ twoDigits 0 @
      [0x2C] @ threeDigits 0)"
proof -
  let ?m = "nat (max 0 \<lfloor>ms\<rfloor>)"
  have f: "formatTimestamp ms =
     padStart 2 0x30 (numToString (?m div 3600000)) @ [0x3A] @
     twoDigits (?m div 60000 mod 60) @ [0x3A] @
     twoDigits (?m div 1000 mod 60) @ [0x2C] @
     threeDigits (?m mod 1000)"
    using formatTimestamp_fields [of ms] by (simp add: Let_def)
  have h: "padStart 2 0x30 (numToString (?m div 3600000)) = twoDigits (?m div 3600000)"
    if "ms < 360000000"
  proof -
    have "\<lfloor>ms\<rfloor> < 360000000" using that by linarith
    then have "?m < 360000000" by linarith
    then have "?m div 3600000 < 100" by simp
    then show ?thesis by (rule pad_two)
  qed
  have l: "length (formatTimestamp ms) = 12" if "ms < 360000000"
    unfolding f h [OF that] by (simp add: twoDigits_def threeDigits_def)
  have z: "formatTimestamp ms = twoDigits 0 @ [0x3A] @ twoDigits 0 @ [0x3A] @ twoDigits 0 @
      [0x2C] @ threeDigits 0" if "ms < 1"
  proof -
    have "\<lfloor>ms\<rfloor> < 1" using that by linarith
    then have "?m = 0" by simp
    then show ?thesis unfolding f by (simp add: pad_two)
  qed
  show ?thesis
    using f h l z renderSegments_index [of segs cfg] formatTimestamp_floor [of ms]
    by (simp add: renderSegments_def)
qed

theorem render_index_and_timestamp_witness:
  "(37230047 / 10 :: real) < 360000000 \<and>
   formatTimestamp (37230047 / 10) =
     [0x30, 0x31, 0x3A, 0x30, 0x32, 0x3A, 0x30, 0x33, 0x2C, 0x30, 0x30, 0x34] \<and>
   (- 5 :: real) < 1 \<and>
   formatTimestamp (- 5) =
     [0x30, 0x30, 0x3A, 0x30, 0x30, 0x3A, 0x30, 0x30, 0x2C, 0x30, 0x30, 0x30] \<and>
   map e_index (renderSegments [helloSegment, worldSegment] defaultConfig) = [1, 2]"
proof -
  have a: "nat (max 0 \<lfloor>37230047 / 10 :: real\<rfloor>) = 3723004" by simp
  show ?thesis
    using render_index_and_timestamp [of "[helloSegment, worldSegment]" defaultConfig "37230047 / 10"]
      render_index_and_timestamp [of "[helloSegment, worldSegment]" defaultConfig "- 5"]
    by (simp add: a twoDigits_def threeDigits_def)
qed



section \<open>Errors of the entry point\<close>

definition noNestedKeys :: "(string \<times> json) list \<Rightarrow> bool" where
  "noNestedKeys kvs = list_all (\<lambda>key. map_of kvs key = None) NESTED_TOKEN_KEYS"

lemma collectTokens_noNested:
  "noNestedKeys kvs \<Longrightarrow> collectTokens (JObj kvs) True = []"
  by (simp add: noNestedKeys_def list_all_iff)

text \<open>
  Claim C4.  A transcript object without a non-empty \<open>tokens\<close> array and without any of
  the nested container keys, in particular one whose token list is empty, makes
  \<open>extractTokens\<close> raise the input error; \<open>extractTokens\<close> raises it exactly when neither
  the top level nor the search through the nested containers yields a token.  \<open>srt\<close> then
  ends with the input error, and with the empty-result error when the segmentation yields
  no segment; and whenever \<open>srt\<close> ends with an error, the file system is as it was before
  the call: nothing was written.
\<close>

theorem srt_errors_before_write:
  "(noNestedKeys kvs \<and> nonEmptyArray (map_of kvs ''tokens'') = None \<longrightarrow>
      extractTokens (JObj kvs) = Inl NoTokens) \<and>
   (extractTokens d = Inl NoTokens \<longleftrightarrow>
      nonEmptyArray (getProp d ''tokens'') = None \<and> collectTokens d True = []) \<and>
   (extractTokens d = Inl NoTokens \<longrightarrow>
      srt parse (Data d) outputPath cfg fs = (Inl NoTokens, fs)) \<and>
   (extractTokens d = Inr tokens \<and> tokensToSubtitleSegments (map asToken tokens) cfg = [] \<longrightarrow>
      srt parse (Data d) outputPath cfg fs = (Inl NoSegments, fs)) \<and>
   (fst (srt parse transcript outputPath cfg fs) = Inl e \<longrightarrow>
      snd (srt parse transcript outputPath cfg fs) = fs)"
proof -
  have a: "extractTokens (JObj kvs) = Inl NoTokens"
    if "noNestedKeys kvs" "nonEmptyArray (map_of kvs ''tokens'') = None"
    using that by (simp add: extractTokens_def getProp_def collectTokens_noNested del: collectTokens.simps)
  have b: "extractTokens d = Inl NoTokens \<longleftrightarrow>
      nonEmptyArray (getProp d ''tokens'') = None \<and> collectTokens d True = []"
    by (auto simp: extractTokens_def Let_def split: option.splits)
  have c: "srt parse (Data d) outputPath cfg fs = (Inl NoTokens, fs)"
    if "extractTokens d = Inl NoTokens"
    using that by (simp add: srt_def loadTranscript_def)
  have d: "srt parse (Data d) outputPath cfg fs = (Inl NoSegments, fs)"
    if "extractTokens d = Inr tokens" "tokensToSubtitleSegments (map asToken tokens) cfg = []"
    using that by (simp add: srt_def loadTranscript_def)
  have e: "snd (srt parse transcript outputPath cfg fs) = fs"
    if "fst (srt parse transcript outputPath cfg fs) = Inl e"
    using that by (auto simp: srt_def Let_def split: sum.splits if_splits)
  show ?thesis using a b c d e by blast
qed


text \<open>The transcripts \<open>{"tokens": []}\<close> and \<open>{"tokens": [{"text": " ", ...}]}\<close>.\<close>

definition emptyTranscript :: json where
  "emptyTranscript = JObj [(''tokens'', JArr [])]"

definition blankToken :: json where
  "blankToken = JObj [(''text'', JStr [0x20]), (''start_ms'', JNum 0), (''end_ms'', JNum 100)]"

definition blankTranscript :: json where
  "blankTranscript = JObj [(''tokens'', JArr [blankToken])]"

definition noParse :: "jstring \<Rightarrow> json option" where
  "noParse raw = None"

definition outPath :: jstring where
  "outPath = [0x6F, 0x2E, 0x73, 0x72, 0x74]"

lemma blank_no_segments:
  "tokensToSubtitleSegments (map asToken [blankToken]) defaultConfig = []"
proof -
  have t: "asToken blankToken =
      \<lparr>tk_text = [0x20], tk_start_ms = Some 0, tk_end_ms = Some 100,
       tk_speaker = Undefined, tk_prefix_space = False\<rparr>"
    by (simp add: asToken_def blankToken_def getProp_def truthy_def)
  have w: "tokensToWords [asToken blankToken] =
      [\<lparr>w_text = [], w_start_ms = Some 0, w_end_ms = Some 100, w_speaker = Undefined,
        w_inner = [(asToken blankToken)\<lparr>tk_prefix_space := True\<rparr>], w_prefix_space = True\<rparr>]"
    unfolding t by (simp add: tw_eval_defs)
  show ?thesis
    by (simp add: tokensToSubtitleSegments_def w defaultConfig_def Let_def)
      (simp add: bs_eval_defs)
qed

theorem srt_errors_before_write_witness:
  "noNestedKeys [(''tokens'', JArr [])] \<and>
   nonEmptyArray (map_of [(''tokens'', JArr [])] ''tokens'') = None \<and>
   extractTokens emptyTranscript = Inl NoTokens \<and>
   srt noParse (Data emptyTranscript) outPath defaultConfig Map.empty = (Inl NoTokens, Map.empty) \<and>
   extractTokens blankTranscript = Inr [blankToken] \<and>
   tokensToSubtitleSegments (map asToken [blankToken]) defaultConfig = [] \<and>
   srt noParse (Data blankTranscript) outPath defaultConfig Map.empty = (Inl NoSegments, Map.empty) \<and>
   fst (srt noParse (Path outPath) outPath defaultConfig Map.empty) = Inl ReadFailed \<and>
   snd (srt noParse (Path outPath) outPath defaultConfig Map.empty) = Map.empty"
proof -
  have a: "noNestedKeys [(''tokens'', JArr [])]"
    by (simp add: noNestedKeys_def NESTED_TOKEN_KEYS_def)
  have b: "nonEmptyArray (map_of [(''tokens'', JArr [])] ''tokens'') = None"
    by (simp add: nonEmptyArray_def)
  have c: "extractTokens blankTranscript = Inr [blankToken]"
    by (simp add: extractTokens_def blankTranscript_def getProp_def nonEmptyArray_def)
  have d: "fst (srt noParse (Path outPath) outPath defaultConfig Map.empty) = Inl ReadFailed"
    by (simp add: srt_def loadTranscript_def)
  show ?thesis
    using a b c d blank_no_segments
      srt_errors_before_write [of "[(''tokens'', JArr [])]" emptyTranscript noParse outPath
        defaultConfig Map.empty "[]" "Path outPath" ReadFailed]
      srt_errors_before_write [of "[]" blankTranscript noParse outPath
        defaultConfig Map.empty "[blankToken]" "Path outPath" ReadFailed]
    by (simp add: emptyTranscript_def)
qed


end
